theory Spec2Isabelle
  imports Main
begin

section \<open>Python primitives used by the two scripts\<close>

text \<open>
  Files hold text as it is stored, one character per stored character (decoding happens
  below this model).  A path is a string.
\<close>

type_synonym path = string

text \<open>
  Both scripts open their files in text mode with the default \<^verbatim>\<open>newline=None\<close>
  (\<^verbatim>\<open>SplitFile.py\<close> lines 33, 47, 52 and 74).  On reading, universal newlines are in force:
  a carriage return followed by a line feed, and a carriage return alone, both reach the
  program as one line feed.  On writing, a line feed is stored as \<^verbatim>\<open>os.linesep\<close>, which
  is the line feed itself on the POSIX systems that \<^verbatim>\<open>splitext\<close> below assumes, so
  written text is stored as it is.
\<close>

fun universal_newlines :: "string \<Rightarrow> string" where
  "universal_newlines [] = []"
| "universal_newlines [c] = (if c = CHR 0x0D then [CHR 0x0A] else [c])"
| "universal_newlines (c # d # cs) =
     (if c = CHR 0x0D \<and> d = CHR 0x0A then CHR 0x0A # universal_newlines cs
      else if c = CHR 0x0D then CHR 0x0A # universal_newlines (d # cs)
      else c # universal_newlines (d # cs))"

text \<open>
  \<^verbatim>\<open>fp.readlines()\<close> on the translated text: the text cut after every line feed;
  every line keeps its terminator, and a last line without one is kept as it is.  The
  first argument is the line collected so far.
\<close>

fun readlines_from :: "string \<Rightarrow> string \<Rightarrow> string list" where
  "readlines_from cur [] = (if cur = [] then [] else [cur])"
| "readlines_from cur (c # cs) =
     (if c = CHR 0x0A then (cur @ [c]) # readlines_from [] cs
      else readlines_from (cur @ [c]) cs)"

definition readlines :: "string \<Rightarrow> string list" where
  "readlines text = readlines_from [] text"

text \<open>
  An open input file is the list of the lines not yet read.  \<^verbatim>\<open>fp.readline()\<close>
  returns the next line, or the empty string at the end of the file.
\<close>

fun readline :: "string list \<Rightarrow> string \<times> string list" where
  "readline [] = ([], [])"
| "readline (l # ls) = (l, ls)"

lemma readline_shorter:
  "(line, fp') = readline fp \<Longrightarrow> line \<noteq> [] \<Longrightarrow> length fp' < length fp"
  by (cases fp) auto

text \<open>\<^verbatim>\<open>str(n)\<close> for an integer: its decimal digits, with a minus sign when negative.\<close>

definition digit_char :: "nat \<Rightarrow> char" where
  "digit_char d = ''0123456789'' ! d"

fun str_nat :: "nat \<Rightarrow> string" where
  "str_nat n = (if n < 10 then [digit_char n] else str_nat (n div 10) @ [digit_char (n mod 10)])"

declare str_nat.simps [simp del]

definition str :: "int \<Rightarrow> string" where
  "str i = (if i < 0 then CHR ''-'' # str_nat (nat (- i)) else str_nat (nat i))"

text \<open>\<^verbatim>\<open>str.strip()\<close>, on ASCII text: white space is cut off at both ends.\<close>

definition whitespace :: "char \<Rightarrow> bool" where
  "whitespace c \<longleftrightarrow>
     c \<in> set [CHR 0x09, CHR 0x0A, CHR 0x0B, CHR 0x0C, CHR 0x0D,
               CHR 0x1C, CHR 0x1D, CHR 0x1E, CHR 0x1F, CHR 0x20]"

definition strip :: "string \<Rightarrow> string" where
  "strip t = rev (dropWhile whitespace (rev (dropWhile whitespace t)))"

text \<open>
  \<^verbatim>\<open>p.rfind(c)\<close>: the index of the last occurrence of a character, or \<open>-1\<close>.
\<close>

definition rfind :: "string \<Rightarrow> char \<Rightarrow> int" where
  "rfind p c =
     (if c \<in> set p then int (length p) - 1 - int (length (takeWhile (\<lambda>x. x \<noteq> c) (rev p)))
      else - 1)"

text \<open>
  \<^verbatim>\<open>os.path.splitext\<close> (POSIX): the extension starts at the last dot of the last path
  component, unless that component has only dots before it.
\<close>

definition splitext :: "path \<Rightarrow> path \<times> string" where
  "splitext p =
     (let sepIndex = rfind p CHR ''/'';
          dotIndex = rfind p CHR ''.''
      in if dotIndex > sepIndex \<and>
            list_ex (\<lambda>c. c \<noteq> CHR ''.'')
              (take (nat (dotIndex - (sepIndex + 1))) (drop (nat (sepIndex + 1)) p))
         then (take (nat dotIndex) p, drop (nat dotIndex) p)
         else (p, []))"

text \<open>
  \<^verbatim>\<open>int(a / b)\<close> and \<^verbatim>\<open>a % b\<close> on integers.  True division followed by
  \<^verbatim>\<open>int\<close> truncates towards zero (the quotient passes through a float, which is exact
  for the line counts a file can have); \<^verbatim>\<open>%\<close> takes the sign of the divisor, as
  \<open>mod\<close> does.  Both raise on a zero divisor.
\<close>

datatype error = FileNotFoundError path | PermissionError path | ZeroDivisionError

definition int_truediv :: "int \<Rightarrow> int \<Rightarrow> error + int" where
  "int_truediv a b =
     (if b = 0 then Inl ZeroDivisionError else Inr (sgn a * sgn b * (\<bar>a\<bar> div \<bar>b\<bar>)))"

definition py_mod :: "int \<Rightarrow> int \<Rightarrow> error + int" where
  "py_mod a b = (if b = 0 then Inl ZeroDivisionError else Inr (a mod b))"

section \<open>SplitFile: the state the script works on\<close>

text \<open>
  What the script prints, one constructor per \<^verbatim>\<open>print\<close> call of the source:
  the header-file error (line 37), \<^verbatim>\<open>Generating ...\<close> (lines 51, 73), the preamble
  list (lines 55, 77), the echoed input line, stripped (line 65), the separator
  with the counter (line 72) and the processing error (line 83).
\<close>

datatype event =
    ErrorReadingHeader
  | Generating path
  | PrintPreamble "string list"
  | Echo string
  | Separator int
  | ErrorProcessing path error

text \<open>
  The state: the file system (path to stored text), the paths that cannot be opened for
  writing, the console, and the local variable \<^verbatim>\<open>count\<close> of \<^verbatim>\<open>main\<close>.
\<close>

record state =
  fs :: "path \<Rightarrow> string option"
  locked :: "path \<Rightarrow> bool"
  console :: "event list"
  count :: int

definition print :: "event \<Rightarrow> state \<Rightarrow> state" where
  "print e s = s\<lparr>console := console s @ [e]\<rparr>"

text \<open>The text of a file as a text-mode read delivers it.\<close>

definition read_text :: "state \<Rightarrow> path \<Rightarrow> string option" where
  "read_text s p = map_option universal_newlines (fs s p)"

text \<open>\<^verbatim>\<open>open(p)\<close>: fails when there is no such file; otherwise the lines to read.\<close>

definition open_r :: "path \<Rightarrow> state \<Rightarrow> error + string list" where
  "open_r p s =
     (case read_text s p of
        None \<Rightarrow> Inl (FileNotFoundError p)
      | Some content \<Rightarrow> Inr (readlines content))"

text \<open>\<^verbatim>\<open>open(p, 'w')\<close>: fails on a locked path; otherwise the file is created empty.\<close>

definition open_w :: "path \<Rightarrow> state \<Rightarrow> error + state" where
  "open_w p s =
     (if locked s p then Inl (PermissionError p) else Inr (s\<lparr>fs := (fs s)(p \<mapsto> [])\<rparr>))"

text \<open>\<^verbatim>\<open>outfile.write(data)\<close> appends to the file behind the handle.\<close>

definition write_file :: "path \<Rightarrow> string \<Rightarrow> state \<Rightarrow> state" where
  "write_file p data s =
     s\<lparr>fs := (fs s)(p \<mapsto> (case fs s p of None \<Rightarrow> data | Some content \<Rightarrow> content @ data))\<rparr>"

definition writelines :: "path \<Rightarrow> string list \<Rightarrow> state \<Rightarrow> state" where
  "writelines p ls s = fold (write_file p) ls s"

section \<open>SplitFile: the script\<close>

text \<open>Lines 50 and 71: the name of an output file.\<close>

definition output_filename :: "path \<times> string \<Rightarrow> int \<Rightarrow> int \<Rightarrow> error + path" where
  "output_filename input_filename_parts cnt max_lines =
     (case int_truediv cnt max_lines of
        Inl e \<Rightarrow> Inl e
      | Inr q \<Rightarrow> Inr (fst input_filename_parts @ ''-'' @ str q @ snd input_filename_parts))"

text \<open>
  Lines 59 to 78, the \<^verbatim>\<open>while True\<close> loop.  An exception leaves the loop with the
  state reached so far.
\<close>

function split_loop ::
  "string list \<Rightarrow> int \<Rightarrow> path \<times> string \<Rightarrow> path \<Rightarrow> string list \<Rightarrow> state
     \<Rightarrow> (error \<times> state) + state" where
  "split_loop preamble max_lines input_filename_parts outfile fp s =
     (let s1 = s\<lparr>count := count s + 1\<rparr>;
          (line, fp') = readline fp
      in if line = [] then Inr s1
         else
           let s2 = print (Echo (strip line)) s1;
               s3 = write_file outfile line s2
           in case py_mod (count s3) max_lines of
                Inl e \<Rightarrow> Inl (e, s3)
              | Inr r \<Rightarrow>
                  if r = 0 then
                    (case output_filename input_filename_parts (count s3) max_lines of
                       Inl e \<Rightarrow> Inl (e, s3)
                     | Inr output_filename' \<Rightarrow>
                         let s4 = print (Separator (count s3)) s3;
                             s5 = print (Generating output_filename') s4
                         in (case open_w output_filename' s5 of
                               Inl e \<Rightarrow> Inl (e, s5)
                             | Inr s6 \<Rightarrow>
                                 let s7 = print (PrintPreamble preamble) s6;
                                     s8 = writelines output_filename' preamble s7
                                 in split_loop preamble max_lines input_filename_parts
                                      output_filename' fp' s8))
                  else split_loop preamble max_lines input_filename_parts outfile fp' s3)"
  by pat_completeness auto
termination
  by (relation "measure (\<lambda>(preamble, max_lines, parts, outfile, fp, s). length fp)")
    (auto dest: readline_shorter)

declare split_loop.simps [simp del]

text \<open>
  Lines 47 to 80, the body of the \<^verbatim>\<open>for\<close> loop: one input file.  The final
  \<^verbatim>\<open>outfile.close()\<close> changes nothing here, since writes reach the file at once.
\<close>

definition process_file ::
  "string list \<Rightarrow> int \<Rightarrow> path \<Rightarrow> state \<Rightarrow> (error \<times> state) + state" where
  "process_file preamble max_lines input_filename s =
     (case open_r input_filename s of
        Inl e \<Rightarrow> Inl (e, s)
      | Inr fp \<Rightarrow>
          let input_filename_parts = splitext input_filename
          in (case output_filename input_filename_parts (count s) max_lines of
                Inl e \<Rightarrow> Inl (e, s)
              | Inr output_filename' \<Rightarrow>
                  let s1 = print (Generating output_filename') s
                  in (case open_w output_filename' s1 of
                        Inl e \<Rightarrow> Inl (e, s1)
                      | Inr s2 \<Rightarrow>
                          let s3 = print (PrintPreamble preamble) s2;
                              s4 = writelines output_filename' preamble s3
                          in split_loop preamble max_lines input_filename_parts
                               output_filename' fp s4)))"

text \<open>
  Line 46, the \<^verbatim>\<open>for\<close> loop inside the \<^verbatim>\<open>try\<close>: the first exception ends it,
  and \<^verbatim>\<open>input_filename\<close> is then the file that was being processed.
\<close>

fun process_files ::
  "string list \<Rightarrow> int \<Rightarrow> path list \<Rightarrow> state \<Rightarrow> (path \<times> error \<times> state) + state" where
  "process_files preamble max_lines [] s = Inr s"
| "process_files preamble max_lines (input_filename # rest) s =
     (case process_file preamble max_lines input_filename s of
        Inl (e, s') \<Rightarrow> Inl (input_filename, e, s')
      | Inr s' \<Rightarrow> process_files preamble max_lines rest s')"

text \<open>The parsed command line (lines 12 to 25): at least one file.\<close>

record args =
  files_arg :: "path list"
  preamble_arg :: "path option"
  size_arg :: "int option"

text \<open>
  Lines 30 to 37.  An absent or empty \<^verbatim>\<open>args.preamble\<close> is falsy; a header file that
  cannot be opened is reported and the preamble stays empty.
\<close>

definition read_preamble :: "path option \<Rightarrow> state \<Rightarrow> string list \<times> state" where
  "read_preamble p s =
     (case p of
        None \<Rightarrow> ([], s)
      | Some header \<Rightarrow>
          if header = [] then ([], s)
          else (case open_r header s of
                  Inl e \<Rightarrow> ([], print ErrorReadingHeader s)
                | Inr fp \<Rightarrow> (fp, s)))"

text \<open>Lines 9 and 40 to 42: an absent or zero \<^verbatim>\<open>args.size\<close> is falsy.\<close>

definition MAX_LINES_DEFAULT :: int where
  "MAX_LINES_DEFAULT = 50"

definition max_lines_of :: "int option \<Rightarrow> int" where
  "max_lines_of sz =
     (case sz of None \<Rightarrow> MAX_LINES_DEFAULT | Some n \<Rightarrow> if n = 0 then MAX_LINES_DEFAULT else n)"

text \<open>Lines 28 to 83.\<close>

definition main :: "args \<Rightarrow> state \<Rightarrow> state" where
  "main a s =
     (let (preamble, s1) = read_preamble (preamble_arg a) s;
          max_lines = max_lines_of (size_arg a);
          s2 = s1\<lparr>count := 0\<rparr>
      in case process_files preamble max_lines (files_arg a) s2 of
           Inl (input_filename, ex, s3) \<Rightarrow> print (ErrorProcessing input_filename ex) s3
         | Inr s3 \<Rightarrow> s3)"

section \<open>ics\_parser: the script\<close>

text \<open>
  Python's dates and times, as far as their order goes.  A \<^verbatim>\<open>date\<close> is the number of
  days since 0001-01-01.  A \<^verbatim>\<open>datetime\<close> is naive (no time zone) or aware: then it
  has a wall-clock time, a UTC offset and a \<^verbatim>\<open>tzinfo\<close> object, here the number that
  identifies the object.  The wall-clock time and the offset are counted in microseconds,
  the wall clock since \<^verbatim>\<open>datetime.min\<close>.  A \<^verbatim>\<open>datetime\<close> is a \<^verbatim>\<open>date\<close> too, so the
  \<^verbatim>\<open>isinstance\<close> tests of the source come in the order of the constructors below.
\<close>

datatype pydatetime = Naive int | Aware int int nat

datatype dt_value = DateTime pydatetime | Date int

datatype py_error = TypeError

text \<open>
  \<^verbatim>\<open>a < b\<close> on two \<^verbatim>\<open>datetime\<close> values: naive ones by wall clock; aware ones
  that share their \<^verbatim>\<open>tzinfo\<close> object by wall clock too, and aware ones with different
  \<^verbatim>\<open>tzinfo\<close> objects by UTC instant; between a naive and an aware one Python raises
  \<^verbatim>\<open>TypeError\<close>.
\<close>

fun datetime_lt :: "pydatetime \<Rightarrow> pydatetime \<Rightarrow> py_error + bool" where
  "datetime_lt (Naive a) (Naive b) = Inr (a < b)"
| "datetime_lt (Aware a oa ta) (Aware b ob tb) =
     Inr (if ta = tb then a < b else a - oa < b - ob)"
| "datetime_lt (Naive a) (Aware b ob tb) = Inl TypeError"
| "datetime_lt (Aware a oa ta) (Naive b) = Inl TypeError"

definition datetime_min :: pydatetime where
  "datetime_min = Naive 0"

text \<open>\<^verbatim>\<open>datetime(d.year, d.month, d.day, 0, 0, 0)\<close>: midnight of a date, naive.\<close>

definition midnight :: "int \<Rightarrow> pydatetime" where
  "midnight d = Naive (d * 86400000000)"

text \<open>\<^verbatim>\<open>str.split()\<close> and \<^verbatim>\<open>' '.join\<close>, on ASCII text.\<close>

fun split_from :: "string \<Rightarrow> string \<Rightarrow> string list" where
  "split_from cur [] = (if cur = [] then [] else [cur])"
| "split_from cur (c # cs) =
     (if whitespace c then (if cur = [] then split_from [] cs else cur # split_from [] cs)
      else split_from (cur @ [c]) cs)"

definition split :: "string \<Rightarrow> string list" where
  "split t = split_from [] t"

fun join :: "string list \<Rightarrow> string" where
  "join [] = []"
| "join [w] = w"
| "join (w # ws) = w @ '' '' @ join ws"

text \<open>
  A component of the parsed calendar, as \<^verbatim>\<open>gcal.walk()\<close> yields it: its name and the
  properties the script asks for, each absent or present.  Parsing is the library's work:
  the script starts from the list of components.
\<close>

record component =
  c_name :: string
  c_summary :: "string option"
  c_dtstart :: "dt_value option"
  c_dtend :: "dt_value option"
  c_description :: "string option"
  c_location :: "string option"
  c_uid :: "string option"

text \<open>The dictionary appended to \<^verbatim>\<open>events\<close> (lines 60 to 68).\<close>

record cal_event =
  sort_key :: "pydatetime option"
  summary :: string
  start_prop :: "dt_value option"
  end_prop :: "dt_value option"
  description :: string
  location :: string
  uid :: string

text \<open>\<^verbatim>\<open>str(prop) if prop else default\<close>: an absent or empty text is falsy.\<close>

definition text_or :: "string option \<Rightarrow> string \<Rightarrow> string" where
  "text_or prop fallback =
     (case prop of None \<Rightarrow> fallback | Some t \<Rightarrow> if t = [] then fallback else t)"

text \<open>Lines 45 to 53: the key an event is sorted by.\<close>

definition sort_key_dt :: "dt_value option \<Rightarrow> pydatetime option" where
  "sort_key_dt prop =
     (case prop of
        None \<Rightarrow> None
      | Some (DateTime dt_obj) \<Rightarrow> Some dt_obj
      | Some (Date dt_obj) \<Rightarrow> Some (midnight dt_obj))"

text \<open>Lines 32 to 68: the event made from a \<^verbatim>\<open>VEVENT\<close> component.\<close>

definition make_event :: "component \<Rightarrow> cal_event" where
  "make_event c =
     \<lparr>sort_key = sort_key_dt (c_dtstart c),
      summary = strip (text_or (c_summary c) ''No Title''),
      start_prop = c_dtstart c,
      end_prop = c_dtend c,
      description = join (split (text_or (c_description c) [])),
      location = strip (text_or (c_location c) []),
      uid = strip (text_or (c_uid c) ''No UID'')\<rparr>"

text \<open>Lines 29 to 31: the events of the calendar, in file order.\<close>

definition collect_events :: "component list \<Rightarrow> cal_event list" where
  "collect_events components = map make_event (filter (\<lambda>c. c_name c = ''VEVENT'') components)"

text \<open>Line 73, the key function of the sort.\<close>

definition key_of :: "cal_event \<Rightarrow> pydatetime" where
  "key_of x = (case sort_key x of None \<Rightarrow> datetime_min | Some k \<Rightarrow> k)"

text \<open>
  \<^verbatim>\<open>events.sort(key=...)\<close>: a stable sort that compares keys with \<^verbatim>\<open><\<close>, written
  here as the insertion of one event after the other into the sorted events before it, each
  behind the events whose key is not greater.  Any comparison that raises ends the sort.
  (Python's merge sort makes other comparisons; it too compares every event with one before
  it, so it raises on the same lists, and a stable sort has only one result.)
\<close>

fun insert_event :: "cal_event \<Rightarrow> cal_event list \<Rightarrow> py_error + cal_event list" where
  "insert_event x [] = Inr [x]"
| "insert_event x (y # ys) =
     (case datetime_lt (key_of x) (key_of y) of
        Inl e \<Rightarrow> Inl e
      | Inr True \<Rightarrow> Inr (x # y # ys)
      | Inr False \<Rightarrow>
          (case insert_event x ys of Inl e \<Rightarrow> Inl e | Inr r \<Rightarrow> Inr (y # r)))"

fun sort_into :: "cal_event list \<Rightarrow> cal_event list \<Rightarrow> py_error + cal_event list" where
  "sort_into placed [] = Inr placed"
| "sort_into placed (x # xs) =
     (case insert_event x placed of Inl e \<Rightarrow> Inl e | Inr placed' \<Rightarrow> sort_into placed' xs)"

definition sort_events :: "cal_event list \<Rightarrow> py_error + cal_event list" where
  "sort_events events = sort_into [] events"

text \<open>
  The lines of the report (lines 75 to 118), one constructor per kind of line; how a date
  or time is printed depends on the value alone.
\<close>

datatype report_line =
    Header path | Blank | Title string | Start dt_value | End dt_value
  | Location string | Description string | Rule | Footer

definition render_event :: "cal_event \<Rightarrow> report_line list" where
  "render_event event =
     [Title (summary event)] @
     (case start_prop event of None \<Rightarrow> [] | Some dt_start \<Rightarrow> [Start dt_start]) @
     (case end_prop event of None \<Rightarrow> [] | Some dt_end \<Rightarrow> [End dt_end]) @
     (if location event \<noteq> [] then [Location (location event)] else []) @
     (if description event \<noteq> [] then [Description (description event)] else []) @
     [Rule]"

text \<open>
  Lines 29 to 120 of \<^verbatim>\<open>parse_ics_to_human_readable\<close>, from the parsed components to the
  lines of the report.  The sort is not inside any \<^verbatim>\<open>try\<close>: when it raises, there is
  no report.
\<close>

definition parse_ics_to_human_readable ::
  "path \<Rightarrow> component list \<Rightarrow> py_error + report_line list" where
  "parse_ics_to_human_readable ics_file_path components =
     (case sort_events (collect_events components) of
        Inl e \<Rightarrow> Inl e
      | Inr events \<Rightarrow>
          Inr ([Header ics_file_path, Blank] @ concat (map render_event events) @ [Footer]))"

section \<open>Notions used to state the properties\<close>

text \<open>
  The shape of the lines that \<^const>\<open>readlines\<close> returns: a complete line ends in its only
  line feed, and only the last line of a file may lack one.
\<close>

definition complete_line :: "string \<Rightarrow> bool" where
  "complete_line l \<longleftrightarrow> l \<noteq> [] \<and> last l = CHR 0x0A \<and> CHR 0x0A \<notin> set (butlast l)"

definition partial_line :: "string \<Rightarrow> bool" where
  "partial_line l \<longleftrightarrow> l \<noteq> [] \<and> CHR 0x0A \<notin> set l"

fun lines_ok :: "string list \<Rightarrow> bool" where
  "lines_ok [] = True"
| "lines_ok [l] = (complete_line l \<or> partial_line l)"
| "lines_ok (l # ls) = (complete_line l \<and> lines_ok ls)"

text \<open>
  The lines of an input file as the loop distributes them, for a counter that stands at
  \<open>c\<close> before the first of them is read: the head of the result continues the output
  file that is open, and every later element is the content of one rotated file.
\<close>

fun chunks :: "int \<Rightarrow> int \<Rightarrow> string list \<Rightarrow> string list list" where
  "chunks m c [] = [[]]"
| "chunks m c (l # ls) =
     (if (c + 1) mod m = 0 then [l] # chunks m (c + 1) ls
      else (l # hd (chunks m (c + 1) ls)) # tl (chunks m (c + 1) ls))"

text \<open>
  What a completed loop leaves behind, written without the state: the events it prints, and
  the files it writes for the rotated chunks, numbered from \<open>i\<close>.
\<close>

fun loop_events :: "string list \<Rightarrow> int \<Rightarrow> path \<times> string \<Rightarrow> int \<Rightarrow> string list \<Rightarrow> event list" where
  "loop_events P m parts c [] = []"
| "loop_events P m parts c (l # ls) =
     Echo (strip l) #
     (if (c + 1) mod m = 0
      then [Separator (c + 1), Generating (fst parts @ ''-'' @ str ((c + 1) div m) @ snd parts),
            PrintPreamble P]
      else []) @
     loop_events P m parts (c + 1) ls"

fun write_chunks ::
  "string list \<Rightarrow> path \<times> string \<Rightarrow> int \<Rightarrow> string list list \<Rightarrow> (path \<Rightarrow> string option)
     \<Rightarrow> (path \<Rightarrow> string option)" where
  "write_chunks P parts i [] f = f"
| "write_chunks P parts i (ch # chs) f =
     write_chunks P parts (i + 1) chs (f(fst parts @ ''-'' @ str i @ snd parts \<mapsto> concat P @ concat ch))"

text \<open>
  The names of the output files a run announces (\<^verbatim>\<open>Generating ...\<close> is printed just
  before a file is opened), the files announced between two states, the name
  \<^verbatim>\<open><stem>-<index><extension>\<close> of a chunk, and the lines of an output file behind its
  preamble prefix.
\<close>

definition generated :: "event list \<Rightarrow> path list" where
  "generated evs = concat (map (\<lambda>e. case e of Generating p \<Rightarrow> [p] | _ \<Rightarrow> []) evs)"

definition outputs :: "state \<Rightarrow> state \<Rightarrow> path list" where
  "outputs s s' = generated (drop (length (console s)) (console s'))"

definition chunk_name :: "path \<Rightarrow> int \<Rightarrow> path" where
  "chunk_name input_filename i =
     fst (splitext input_filename) @ ''-'' @ str i @ snd (splitext input_filename)"

definition content_lines :: "string list \<Rightarrow> state \<Rightarrow> path \<Rightarrow> string list" where
  "content_lines preamble s p =
     (case fs s p of
        None \<Rightarrow> []
      | Some content \<Rightarrow> readlines (drop (length (concat preamble)) content))"

text \<open>The numbers of content lines of the output files opened between two states.\<close>

definition chunk_sizes :: "string list \<Rightarrow> state \<Rightarrow> state \<Rightarrow> int list" where
  "chunk_sizes preamble s s' = map (\<lambda>p. int (length (content_lines preamble s' p))) (outputs s s')"

text \<open>
  The preamble that \<^const>\<open>main\<close> loads, and the state in which its \<^verbatim>\<open>for\<close> loop starts
  (after lines 30 to 44).
\<close>

definition loaded_preamble :: "args \<Rightarrow> state \<Rightarrow> string list" where
  "loaded_preamble a s = fst (read_preamble (preamble_arg a) s)"

definition start_state :: "args \<Rightarrow> state \<Rightarrow> state" where
  "start_state a s = (snd (read_preamble (preamble_arg a) s))\<lparr>count := 0\<rparr>"

text \<open>
  The events printed between two states; the rotations among some events, each the counter
  value printed with the separator and the name of the file announced right after it; and
  the directory part of a path, up to and including its last slash.
\<close>

definition new_events :: "state \<Rightarrow> state \<Rightarrow> event list" where
  "new_events s s' = drop (length (console s)) (console s')"

fun rotations :: "event list \<Rightarrow> (int \<times> path) list" where
  "rotations (Separator c # Generating p # evs) = (c, p) # rotations evs"
| "rotations (e # evs) = rotations evs"
| "rotations [] = []"

definition dir_of :: "path \<Rightarrow> path" where
  "dir_of p = take (nat (rfind p CHR ''/'' + 1)) p"

text \<open>
  The \<^verbatim>\<open>try\<close> statement of \<^const>\<open>main\<close> (lines 45 to 83) on its own, the state an
  outcome ends in, whether it is an exception or not, and a state with events put in front
  of its console.
\<close>

definition run_files :: "string list \<Rightarrow> int \<Rightarrow> path list \<Rightarrow> state \<Rightarrow> state" where
  "run_files preamble max_lines inputs s =
     (case process_files preamble max_lines inputs s of
        Inl (input_filename, ex, s3) \<Rightarrow> print (ErrorProcessing input_filename ex) s3
      | Inr s3 \<Rightarrow> s3)"

definition outcome :: "(error \<times> state) + state \<Rightarrow> state" where
  "outcome r = (case r of Inl (e, s) \<Rightarrow> s | Inr s \<Rightarrow> s)"

definition shift :: "event list \<Rightarrow> state \<Rightarrow> state" where
  "shift k s = s\<lparr>console := k @ console s\<rparr>"

definition shift_result :: "event list \<Rightarrow> (error \<times> state) + state \<Rightarrow> (error \<times> state) + state" where
  "shift_result k r = (case r of Inl (e, s) \<Rightarrow> Inl (e, shift k s) | Inr s \<Rightarrow> Inr (shift k s))"

text \<open>
  What every stretch of a run respects, seen from a file \<open>out\<close> that is open for writing
  at its start: the console only grows, locks do not change, no file disappears, and only
  \<open>out\<close> and the files announced on the way are written.
\<close>

definition frame :: "path \<Rightarrow> state \<Rightarrow> state \<Rightarrow> bool" where
  "frame out s s' \<longleftrightarrow>
     (\<exists>evs. console s' = console s @ evs \<and>
        (\<forall>p. p \<noteq> out \<and> p \<notin> set (generated evs) \<longrightarrow> fs s' p = fs s p)) \<and>
     locked s' = locked s \<and>
     (\<forall>p. fs s p \<noteq> None \<longrightarrow> fs s' p \<noteq> None)"

text \<open>
  For the calendar script: whether a key is naive, the \<^verbatim>\<open>tzinfo\<close> object of a key
  (none for a naive one), the wall-clock time of a key, and the titles of a report in the
  order of its lines.
\<close>

definition is_naive :: "pydatetime \<Rightarrow> bool" where
  "is_naive k = (case k of Naive a \<Rightarrow> True | Aware a off tz \<Rightarrow> False)"

definition tzinfo_of :: "pydatetime \<Rightarrow> nat option" where
  "tzinfo_of k = (case k of Naive a \<Rightarrow> None | Aware a off tz \<Rightarrow> Some tz)"

definition wall_clock :: "pydatetime \<Rightarrow> int" where
  "wall_clock k = (case k of Naive a \<Rightarrow> a | Aware a off tz \<Rightarrow> a)"

definition titles :: "report_line list \<Rightarrow> string list" where
  "titles report = concat (map (\<lambda>l. case l of Title t \<Rightarrow> [t] | _ \<Rightarrow> []) report)"

section \<open>Example inputs\<close>

text \<open>A file system with a three-line input file (the last line unterminated) and a header file.\<close>

definition example_state :: state where
  "example_state =
     \<lparr>fs = [''d/a.txt'' \<mapsto> ''x\<newline>y\<newline>z'', ''h.txt'' \<mapsto> ''H\<newline>''],
      locked = (\<lambda>p. False), console = [], count = 0\<rparr>"

text \<open>
  An invocation \<^verbatim>\<open>SplitFile.py -s 2 b.txt\<close> on a file of exactly two lines, and one
  \<^verbatim>\<open>SplitFile.py -s 2 b.txt c.txt\<close> with a second file of two lines.
\<close>

definition two_line_state :: state where
  "two_line_state =
     \<lparr>fs = [''b.txt'' \<mapsto> ''x\<newline>y\<newline>'', ''c.txt'' \<mapsto> ''u\<newline>v\<newline>''],
      locked = (\<lambda>p. False), console = [], count = 0\<rparr>"

definition two_line_args :: args where
  "two_line_args = \<lparr>files_arg = [''b.txt''], preamble_arg = None, size_arg = Some 2\<rparr>"

definition two_file_args :: args where
  "two_file_args = \<lparr>files_arg = [''b.txt'', ''c.txt''], preamble_arg = None, size_arg = Some 2\<rparr>"

text \<open>
  An invocation \<^verbatim>\<open>SplitFile.py w.txt\<close> on a file of two lines that end in a carriage
  return and a line feed.
\<close>

definition crlf_state :: state where
  "crlf_state =
     \<lparr>fs = [''w.txt'' \<mapsto>
              [CHR ''x'', CHR 0x0D, CHR 0x0A, CHR ''y'', CHR 0x0D, CHR 0x0A]],
      locked = (\<lambda>p. False), console = [], count = 0\<rparr>"

definition crlf_args :: args where
  "crlf_args = \<lparr>files_arg = [''w.txt''], preamble_arg = None, size_arg = None\<rparr>"

text \<open>
  Invocations on the three-line file: with the header file, with a header file that does
  not exist, and with a second input file that does not exist.
\<close>

definition header_args :: args where
  "header_args = \<lparr>files_arg = [''d/a.txt''], preamble_arg = Some ''h.txt'', size_arg = Some 2\<rparr>"

definition missing_header_args :: args where
  "missing_header_args =
     \<lparr>files_arg = [''d/a.txt''], preamble_arg = Some ''nope.txt'', size_arg = Some 2\<rparr>"

definition missing_input_args :: args where
  "missing_input_args =
     \<lparr>files_arg = [''d/a.txt'', ''nope.txt'', ''h.txt''], preamble_arg = None, size_arg = Some 2\<rparr>"

definition missing_first_args :: args where
  "missing_first_args =
     \<lparr>files_arg = [''nope.txt'', ''d/a.txt''], preamble_arg = None, size_arg = Some 2\<rparr>"

text \<open>
  A calendar with an all-day event on 2024-01-02 and an event at 2024-01-01 10:00:00 UTC,
  and one with the all-day event and an event at 2024-01-01 10:00:00 without a time zone.
\<close>

definition all_day_event :: component where
  "all_day_event =
     \<lparr>c_name = ''VEVENT'', c_summary = Some ''Holiday'', c_dtstart = Some (Date 738886),
      c_dtend = None, c_description = None, c_location = None, c_uid = None\<rparr>"

definition utc_event :: component where
  "utc_event =
     \<lparr>c_name = ''VEVENT'', c_summary = Some ''Call'',
      c_dtstart = Some (DateTime (Aware 63839700000000000 0 0)),
      c_dtend = None, c_description = None, c_location = None, c_uid = None\<rparr>"

definition floating_event :: component where
  "floating_event =
     \<lparr>c_name = ''VEVENT'', c_summary = Some ''Call'',
      c_dtstart = Some (DateTime (Naive 63839700000000000)),
      c_dtend = None, c_description = None, c_location = None, c_uid = None\<rparr>"

section \<open>Facts about the primitives\<close>

lemma succ_div_mod:
  fixes c m :: int
  assumes "0 < m"
  shows "(c + 1) mod m = (if c mod m = m - 1 then 0 else c mod m + 1)"
    and "(c + 1) div m = (if c mod m = m - 1 then c div m + 1 else c div m)"
proof -
  have c: "m * (c div m) + c mod m = c" by (rule mult_div_mod_eq)
  have r: "0 \<le> c mod m" "c mod m < m" using assms by simp_all
  show "(c + 1) mod m = (if c mod m = m - 1 then 0 else c mod m + 1)"
  proof (cases "c mod m = m - 1")
    case True
    with c have "c + 1 = m * (c div m) + m" by linarith
    then have "c + 1 = m * (c div m + 1) + 0" by (simp add: algebra_simps)
    then have "(c + 1) mod m = 0" by (rule int_mod_pos_eq) (use assms in simp_all)
    with True show ?thesis by simp
  next
    case False
    have "c + 1 = m * (c div m) + (c mod m + 1)" using c by linarith
    then have "(c + 1) mod m = c mod m + 1" by (rule int_mod_pos_eq) (use r False in simp_all)
    with False show ?thesis by simp
  qed
  show "(c + 1) div m = (if c mod m = m - 1 then c div m + 1 else c div m)"
  proof (cases "c mod m = m - 1")
    case True
    with c have "c + 1 = m * (c div m) + m" by linarith
    then have "c + 1 = m * (c div m + 1) + 0" by (simp add: algebra_simps)
    then have "(c + 1) div m = c div m + 1" by (rule int_div_pos_eq) (use assms in simp_all)
    with True show ?thesis by simp
  next
    case False
    have "c + 1 = m * (c div m) + (c mod m + 1)" using c by linarith
    then have "(c + 1) div m = c div m" by (rule int_div_pos_eq) (use r False in simp_all)
    with False show ?thesis by simp
  qed
qed

lemma digit_char_inj: "a < 10 \<Longrightarrow> b < 10 \<Longrightarrow> digit_char a = digit_char b \<Longrightarrow> a = b"
proof -
  assume "a < 10" "b < 10" "digit_char a = digit_char b"
  moreover have "distinct ''0123456789''" by simp
  ultimately show "a = b"
    by (simp add: digit_char_def nth_eq_iff_index_eq)
qed

lemma digit_char_not_minus: "d < 10 \<Longrightarrow> digit_char d \<noteq> CHR ''-''"
proof -
  assume "d < 10"
  then have "digit_char d \<in> set ''0123456789''"
    unfolding digit_char_def by (intro nth_mem) simp
  then show ?thesis by auto
qed

lemma str_nat_nonempty: "str_nat n \<noteq> []"
  by (subst str_nat.simps) simp

lemma str_nat_inj: "str_nat a = str_nat b \<Longrightarrow> a = b"
proof (induction a arbitrary: b rule: str_nat.induct)
  case (1 n)
  show ?case
  proof (cases "n < 10")
    case True
    then have n: "str_nat n = [digit_char n]" by (subst str_nat.simps) simp
    show ?thesis
    proof (cases "b < 10")
      case b: True
      then have "str_nat b = [digit_char b]" by (subst str_nat.simps) simp
      with n "1.prems" True b show ?thesis by (auto dest: digit_char_inj)
    next
      case b: False
      then have "str_nat b = str_nat (b div 10) @ [digit_char (b mod 10)]"
        by (subst str_nat.simps) simp
      with n "1.prems" str_nat_nonempty [of "b div 10"] show ?thesis by (cases "str_nat (b div 10)") auto
    qed
  next
    case False
    then have n: "str_nat n = str_nat (n div 10) @ [digit_char (n mod 10)]"
      by (subst str_nat.simps) simp
    show ?thesis
    proof (cases "b < 10")
      case b: True
      then have "str_nat b = [digit_char b]" by (subst str_nat.simps) simp
      with n "1.prems" str_nat_nonempty [of "n div 10"] show ?thesis by (cases "str_nat (n div 10)") auto
    next
      case b: False
      then have "str_nat b = str_nat (b div 10) @ [digit_char (b mod 10)]"
        by (subst str_nat.simps) simp
      with n "1.prems" have "str_nat (n div 10) = str_nat (b div 10)"
        and "digit_char (n mod 10) = digit_char (b mod 10)" by auto
      then have "n div 10 = b div 10" "n mod 10 = b mod 10"
        using "1.IH" [OF False] digit_char_inj [of "n mod 10" "b mod 10"] by auto
      then show ?thesis by (metis div_mult_mod_eq)
    qed
  qed
qed

lemma str_nat_digits: "c \<in> set (str_nat n) \<Longrightarrow> c \<noteq> CHR ''-''"
proof (induction n rule: str_nat.induct)
  case (1 n)
  show ?case
  proof (cases "n < 10")
    case True
    then have "str_nat n = [digit_char n]" by (subst str_nat.simps) simp
    with "1.prems" True show ?thesis by (auto dest: digit_char_not_minus)
  next
    case False
    then have "str_nat n = str_nat (n div 10) @ [digit_char (n mod 10)]"
      by (subst str_nat.simps) simp
    with "1.prems" "1.IH" [OF False] show ?thesis
      using digit_char_not_minus [of "n mod 10"] by auto
  qed
qed

lemma str_inj: "str i = str j \<Longrightarrow> i = j"
proof -
  assume eq: "str i = str j"
  have hd: "hd (str_nat n) \<noteq> CHR ''-''" for n
    using str_nat_digits [of "hd (str_nat n)" n] str_nat_nonempty [of n] by simp
  show "i = j"
  proof (cases "i < 0"; cases "j < 0")
    assume "i < 0" "j < 0"
    with eq have "nat (- i) = nat (- j)" by (auto simp: str_def dest: str_nat_inj)
    with \<open>i < 0\<close> \<open>j < 0\<close> show ?thesis by simp
  next
    assume "i < 0" "\<not> j < 0"
    with eq have "CHR ''-'' # str_nat (nat (- i)) = str_nat (nat j)" by (simp add: str_def)
    with hd [of "nat j"] show ?thesis by (metis list.sel(1))
  next
    assume "\<not> i < 0" "j < 0"
    with eq have "CHR ''-'' # str_nat (nat (- j)) = str_nat (nat i)" by (simp add: str_def)
    with hd [of "nat i"] show ?thesis by (metis list.sel(1))
  next
    assume "\<not> i < 0" "\<not> j < 0"
    with eq have "nat i = nat j" by (auto simp: str_def dest: str_nat_inj)
    with \<open>\<not> i < 0\<close> \<open>\<not> j < 0\<close> show ?thesis by simp
  qed
qed

lemma concat_readlines_from: "concat (readlines_from cur t) = cur @ t"
  by (induction t arbitrary: cur) auto

lemma concat_readlines: "concat (readlines t) = t"
  by (simp add: readlines_def concat_readlines_from)

lemma readlines_from_nonempty: "[] \<notin> set (readlines_from cur t)"
  by (induction t arbitrary: cur) auto

lemma readlines_nonempty: "[] \<notin> set (readlines t)"
  by (simp add: readlines_def readlines_from_nonempty)

lemma readlines_from_line:
  "CHR 0x0A \<notin> set a \<Longrightarrow>
   readlines_from cur (a @ CHR 0x0A # t) = (cur @ a @ [CHR 0x0A]) # readlines_from [] t"
  by (induction a arbitrary: cur) auto

lemma readlines_from_rest:
  "CHR 0x0A \<notin> set a \<Longrightarrow> readlines_from cur a = (if cur @ a = [] then [] else [cur @ a])"
  by (induction a arbitrary: cur) auto

lemma complete_lineE:
  assumes "complete_line l"
  obtains a where "l = a @ [CHR 0x0A]" "CHR 0x0A \<notin> set a"
  using assms unfolding complete_line_def by (metis append_butlast_last_id)

lemma readlines_concat: "lines_ok ls \<Longrightarrow> readlines_from [] (concat ls) = ls"
proof (induction ls rule: lines_ok.induct)
  case 1
  then show ?case by simp
next
  case (2 l)
  then have "complete_line l \<or> partial_line l" by simp
  then show ?case
  proof
    assume "complete_line l"
    then obtain a where "l = a @ [CHR 0x0A]" "CHR 0x0A \<notin> set a" by (rule complete_lineE)
    then show ?thesis using readlines_from_line [of a "[]" "[]"] by simp
  next
    assume "partial_line l"
    then show ?thesis by (simp add: partial_line_def readlines_from_rest)
  qed
next
  case (3 l l' ls)
  then have "complete_line l" and ih: "readlines_from [] (concat (l' # ls)) = l' # ls"
    by simp_all
  then obtain a where "l = a @ [CHR 0x0A]" "CHR 0x0A \<notin> set a" by (auto elim: complete_lineE)
  then show ?case using readlines_from_line [of a "[]" "concat (l' # ls)"] ih by simp
qed

lemma lines_ok_readlines_from:
  "CHR 0x0A \<notin> set cur \<Longrightarrow> lines_ok (readlines_from cur t)"
proof (induction t arbitrary: cur)
  case Nil
  then show ?case by (simp add: partial_line_def)
next
  case (Cons c t)
  show ?case
  proof (cases "c = CHR 0x0A")
    case True
    have "complete_line (cur @ [c])" using True Cons.prems by (simp add: complete_line_def)
    moreover have "lines_ok (readlines_from [] t)" by (rule Cons.IH) simp
    ultimately show ?thesis using True
      by (cases "readlines_from [] t") simp_all
  next
    case False
    then show ?thesis using Cons.IH [of "cur @ [c]"] Cons.prems by simp
  qed
qed

lemma lines_ok_readlines: "lines_ok (readlines t)"
  by (simp add: readlines_def lines_ok_readlines_from)

lemma lines_ok_append: "lines_ok (a @ b) \<Longrightarrow> lines_ok a \<and> lines_ok b"
proof (induction a rule: lines_ok.induct)
  case 1
  then show ?case by simp
next
  case (2 l)
  then show ?case by (cases b) auto
next
  case (3 l l' ls)
  then show ?case by auto
qed

lemma lines_ok_concat: "lines_ok (concat chs) \<Longrightarrow> ch \<in> set chs \<Longrightarrow> lines_ok ch"
  by (induction chs) (auto dest: lines_ok_append)

section \<open>Facts about the distribution of lines\<close>

lemma rotation_step:
  fixes c m :: int
  assumes "0 < m" "(c + 1) mod m = 0"
  shows "c mod m = m - 1" and "(c + 1) div m = c div m + 1"
proof -
  have "0 \<le> c mod m" using assms(1) by simp
  with assms(2) show "c mod m = m - 1"
    using succ_div_mod(1) [OF assms(1), of c] by (auto split: if_splits)
  then show "(c + 1) div m = c div m + 1"
    using succ_div_mod(2) [OF assms(1), of c] by simp
qed

lemma plain_step:
  fixes c m :: int
  assumes "0 < m" "(c + 1) mod m \<noteq> 0"
  shows "(c + 1) mod m = c mod m + 1" and "(c + 1) div m = c div m"
proof -
  have ne: "c mod m \<noteq> m - 1"
    using assms(2) succ_div_mod(1) [OF assms(1), of c] by auto
  then show "(c + 1) mod m = c mod m + 1"
    using succ_div_mod(1) [OF assms(1), of c] by simp
  show "(c + 1) div m = c div m"
    using ne succ_div_mod(2) [OF assms(1), of c] by simp
qed

lemma chunks_nonempty: "chunks m c ls \<noteq> []"
  by (induction ls arbitrary: c) auto

lemma concat_chunks: "concat (chunks m c ls) = ls"
proof (induction ls arbitrary: c)
  case Nil
  then show ?case by simp
next
  case (Cons l ls)
  have "concat (hd (chunks m (c + 1) ls) # tl (chunks m (c + 1) ls)) = ls"
    using Cons.IH [of "c + 1"] chunks_nonempty [of m "c + 1" ls] by simp
  then show ?case using Cons.IH [of "c + 1"] by simp
qed

lemma length_chunks:
  "0 < m \<Longrightarrow> int (length (chunks m c ls)) = (c + int (length ls)) div m - c div m + 1"
proof (induction ls arbitrary: c)
  case Nil
  then show ?case by simp
next
  case (Cons l ls)
  have ne: "chunks m (c + 1) ls \<noteq> []" by (rule chunks_nonempty)
  have ih: "int (length (chunks m (c + 1) ls)) = (c + 1 + int (length ls)) div m - (c + 1) div m + 1"
    using Cons by simp
  have eq: "c + int (length (l # ls)) = c + 1 + int (length ls)" by simp
  show ?case
  proof (cases "(c + 1) mod m = 0")
    case True
    then have "(c + 1) div m = c div m + 1"
      by (rule rotation_step(2) [OF Cons.prems])
    with True ih show ?thesis unfolding eq by simp
  next
    case False
    then have "(c + 1) div m = c div m"
      by (rule plain_step(2) [OF Cons.prems])
    moreover have "length (chunks m c (l # ls)) = length (chunks m (c + 1) ls)"
      using False ne by simp
    ultimately show ?thesis using ih unfolding eq by simp
  qed
qed

lemma chunks_sizes_aux:
  "0 < m \<Longrightarrow>
   (length (chunks m c ls) = 1 \<longrightarrow> int (length (hd (chunks m c ls))) \<le> m - 1 - c mod m) \<and>
   (1 < length (chunks m c ls) \<longrightarrow> int (length (hd (chunks m c ls))) = m - c mod m) \<and>
   (\<forall>j. 0 < j \<and> Suc j < length (chunks m c ls) \<longrightarrow> int (length (chunks m c ls ! j)) = m) \<and>
   int (length (last (chunks m c ls))) < m"
proof (induction ls arbitrary: c)
  case Nil
  have "c mod m < m" using Nil by simp
  then show ?case using Nil by simp
next
  case (Cons l ls)
  let ?r = "chunks m (c + 1) ls"
  have ne: "?r \<noteq> []" by (rule chunks_nonempty)
  note ih = Cons.IH [OF Cons.prems, of "c + 1"]
  show ?case
  proof (cases "(c + 1) mod m = 0")
    case True
    then have cm: "c mod m = m - 1"
      by (rule rotation_step(1) [OF Cons.prems])
    have ch: "chunks m c (l # ls) = [l] # ?r" using True by simp
    have "int (length (chunks m c (l # ls) ! j)) = m" if "0 < j" "Suc j < length (chunks m c (l # ls))" for j
    proof (cases j)
      case 0
      with that show ?thesis by simp
    next
      case (Suc k)
      with that have k: "Suc k < length ?r" unfolding ch by simp
      show ?thesis
      proof (cases k)
        case 0
        with k have "1 < length ?r" by simp
        with ih True have "int (length (hd ?r)) = m" by simp
        with Suc 0 ne show ?thesis unfolding ch by (simp add: hd_conv_nth)
      next
        case (Suc k')
        with k ih have "int (length (?r ! k)) = m" by simp
        with \<open>j = Suc k\<close> show ?thesis unfolding ch by simp
      qed
    qed
    moreover have "int (length (last (chunks m c (l # ls)))) < m"
      using ih ne unfolding ch by simp
    ultimately show ?thesis using cm ne unfolding ch by simp
  next
    case False
    then have cm: "(c + 1) mod m = c mod m + 1"
      by (rule plain_step(1) [OF Cons.prems])
    have ch: "chunks m c (l # ls) = (l # hd ?r) # tl ?r" using False by simp
    have len: "length (chunks m c (l # ls)) = length ?r" using ne unfolding ch by simp
    have "int (length (chunks m c (l # ls) ! j)) = m" if "0 < j" "Suc j < length (chunks m c (l # ls))" for j
    proof -
      from that have "chunks m c (l # ls) ! j = ?r ! j"
        unfolding ch using ne by (cases j) (simp_all add: nth_tl)
      with that ih show ?thesis unfolding len by simp
    qed
    moreover have "int (length (last (chunks m c (l # ls)))) < m"
    proof (cases "tl ?r = []")
      case True
      then have "length ?r = 1" using ne by (cases ?r) simp_all
      with ih have "int (length (hd ?r)) \<le> m - 1 - (c + 1) mod m" by simp
      moreover have "0 \<le> c mod m" using Cons.prems by simp
      ultimately show ?thesis using True cm unfolding ch by simp
    next
      case False
      then have "last (chunks m c (l # ls)) = last ?r"
        unfolding ch using ne by (simp add: last_tl)
      with ih show ?thesis by simp
    qed
    moreover have "int (length (hd (chunks m c (l # ls)))) \<le> m - 1 - c mod m"
      if "length (chunks m c (l # ls)) = 1"
    proof -
      from that have "length ?r = 1" by (simp only: len)
      with ih have "int (length (hd ?r)) \<le> m - 1 - (c + 1) mod m" by simp
      then show ?thesis by (simp add: ch cm del: chunks.simps)
    qed
    moreover have "int (length (hd (chunks m c (l # ls)))) = m - c mod m"
      if "1 < length (chunks m c (l # ls))"
    proof -
      from that have "1 < length ?r" by (simp only: len)
      with ih have "int (length (hd ?r)) = m - (c + 1) mod m" by simp
      then show ?thesis by (simp add: ch cm del: chunks.simps)
    qed
    ultimately show ?thesis by blast
  qed
qed

section \<open>SplitFile: the steps of the script\<close>

lemma print_simps [simp]:
  "fs (print e s) = fs s" "locked (print e s) = locked s"
  "count (print e s) = count s" "console (print e s) = console s @ [e]"
  by (simp_all add: print_def)

lemma write_file_simps [simp]:
  "locked (write_file p d s) = locked s" "count (write_file p d s) = count s"
  "console (write_file p d s) = console s"
  by (simp_all add: write_file_def)

lemma fs_write_file:
  "fs s p = Some t \<Longrightarrow> fs (write_file p d s) = (fs s)(p \<mapsto> t @ d)"
  by (simp add: write_file_def)

lemma writelines_simps [simp]:
  "locked (writelines p ls s) = locked s" "count (writelines p ls s) = count s"
  "console (writelines p ls s) = console s"
  unfolding writelines_def by (induction ls arbitrary: s) simp_all

lemma fs_writelines:
  "fs s p = Some t \<Longrightarrow> fs (writelines p ls s) = (fs s)(p \<mapsto> t @ concat ls)"
  unfolding writelines_def
proof (induction ls arbitrary: s t)
  case Nil
  then show ?case by (simp add: fun_upd_idem)
next
  case (Cons l ls)
  have "fs (write_file p l s) p = Some (t @ l)" using Cons.prems by (simp add: fs_write_file)
  from Cons.IH [OF this] show ?case using Cons.prems by (auto simp: fs_write_file fun_eq_iff)
qed

lemma open_w_Inr:
  "open_w p s = Inr s' \<Longrightarrow> \<not> locked s p \<and> s' = s\<lparr>fs := (fs s)(p \<mapsto> [])\<rparr>"
  by (auto simp: open_w_def split: if_splits)

lemma open_w_Inl:
  "open_w p s = Inl e \<Longrightarrow> locked s p \<and> e = PermissionError p"
  by (auto simp: open_w_def split: if_splits)

lemma open_w_unlocked: "\<not> locked s p \<Longrightarrow> open_w p s = Inr (s\<lparr>fs := (fs s)(p \<mapsto> [])\<rparr>)"
  by (simp add: open_w_def)

lemma output_filename_pos:
  "0 < m \<Longrightarrow> 0 \<le> c \<Longrightarrow>
   output_filename parts c m = Inr (fst parts @ ''-'' @ str (c div m) @ snd parts)"
  by (cases "c = 0") (simp_all add: output_filename_def int_truediv_def)

lemma split_loop_Nil:
  "split_loop P m parts out [] s = Inr (s\<lparr>count := count s + 1\<rparr>)"
  by (simp add: split_loop.simps)

lemma split_loop_plain:
  assumes "0 < m" "l \<noteq> []" "(count s + 1) mod m \<noteq> 0"
  shows "split_loop P m parts out (l # fp) s =
         split_loop P m parts out fp (write_file out l (print (Echo (strip l)) (s\<lparr>count := count s + 1\<rparr>)))"
  using assms by (subst split_loop.simps) (simp add: py_mod_def)

lemma split_loop_rotate:
  assumes "0 < m" "l \<noteq> []" "(count s + 1) mod m = 0" "0 \<le> count s"
  shows "split_loop P m parts out (l # fp) s =
         (let nm = fst parts @ ''-'' @ str ((count s + 1) div m) @ snd parts;
              s5 = print (Generating nm) (print (Separator (count s + 1))
                     (write_file out l (print (Echo (strip l)) (s\<lparr>count := count s + 1\<rparr>))))
          in case open_w nm s5 of
               Inl e \<Rightarrow> Inl (e, s5)
             | Inr s6 \<Rightarrow> split_loop P m parts nm fp (writelines nm P (print (PrintPreamble P) s6)))"
  using assms by (subst split_loop.simps) (simp add: py_mod_def output_filename_pos Let_def split: sum.splits)

lemma split_loop_Inr:
  assumes m: "0 < m"
  shows "[] \<notin> set fp \<Longrightarrow> 0 \<le> count s \<Longrightarrow> fs s out = Some t \<Longrightarrow>
     split_loop P m parts out fp s = Inr s' \<Longrightarrow>
     s' = s\<lparr>fs := write_chunks P parts (count s div m + 1) (tl (chunks m (count s) fp))
                    ((fs s)(out \<mapsto> t @ concat (hd (chunks m (count s) fp)))),
             console := console s @ loop_events P m parts (count s) fp,
             count := count s + int (length fp) + 1\<rparr>"
proof (induction fp arbitrary: s out t)
  case Nil
  then show ?case by (simp add: split_loop_Nil fun_upd_idem)
next
  case (Cons l fp)
  let ?c = "count s"
  let ?s3 = "write_file out l (print (Echo (strip l)) (s\<lparr>count := ?c + 1\<rparr>))"
  have l: "l \<noteq> []" and fp: "[] \<notin> set fp" using Cons.prems(1) by auto
  have ne: "chunks m (?c + 1) fp \<noteq> []" by (rule chunks_nonempty)
  have c3: "count ?s3 = ?c + 1" by simp
  have f3: "fs ?s3 = (fs s)(out \<mapsto> t @ l)" using Cons.prems(3) by (simp add: fs_write_file)
  have k3: "console ?s3 = console s @ [Echo (strip l)]" by simp
  show ?case
  proof (cases "(?c + 1) mod m = 0")
    case False
    then have run: "split_loop P m parts out fp ?s3 = Inr s'"
      using Cons.prems(4) split_loop_plain [OF m l False] by simp
    have "0 \<le> count ?s3" using Cons.prems(2) unfolding c3 by simp
    moreover have "fs ?s3 out = Some (t @ l)" unfolding f3 by simp
    ultimately have "s' = ?s3\<lparr>fs := write_chunks P parts (count ?s3 div m + 1)
                    (tl (chunks m (count ?s3) fp))
                    ((fs ?s3)(out \<mapsto> (t @ l) @ concat (hd (chunks m (count ?s3) fp)))),
             console := console ?s3 @ loop_events P m parts (count ?s3) fp,
             count := count ?s3 + int (length fp) + 1\<rparr>"
      using run by (rule Cons.IH [OF fp])
    moreover have "?s3 = s\<lparr>fs := fs ?s3, console := console ?s3, count := count ?s3\<rparr>"
      by (rule state.equality) simp_all
    ultimately have res: "s' = s\<lparr>fs := write_chunks P parts ((?c + 1) div m + 1)
                    (tl (chunks m (?c + 1) fp))
                    ((fs s)(out \<mapsto> t @ l @ concat (hd (chunks m (?c + 1) fp)))),
             console := console s @ [Echo (strip l)] @ loop_events P m parts (?c + 1) fp,
             count := ?c + 1 + int (length fp) + 1\<rparr>"
      unfolding c3 f3 k3 by simp
    have F: "write_chunks P parts (?c div m + 1) (tl (chunks m ?c (l # fp)))
                    ((fs s)(out \<mapsto> t @ concat (hd (chunks m ?c (l # fp))))) =
          write_chunks P parts ((?c + 1) div m + 1) (tl (chunks m (?c + 1) fp))
                    ((fs s)(out \<mapsto> t @ l @ concat (hd (chunks m (?c + 1) fp))))"
      using False plain_step(2) [OF m False] by simp
    have K: "loop_events P m parts ?c (l # fp) = [Echo (strip l)] @ loop_events P m parts (?c + 1) fp"
      using False by simp
    have N: "?c + int (length (l # fp)) + 1 = ?c + 1 + int (length fp) + 1" by simp
    show ?thesis unfolding F K N by (rule res)
  next
    case True
    let ?nm = "fst parts @ ''-'' @ str ((?c + 1) div m) @ snd parts"
    let ?s5 = "print (Generating ?nm) (print (Separator (?c + 1)) ?s3)"
    from Cons.prems(4) split_loop_rotate [OF m l True Cons.prems(2), of P parts out fp]
    obtain s6 where o: "open_w ?nm ?s5 = Inr s6"
      and run: "split_loop P m parts ?nm fp (writelines ?nm P (print (PrintPreamble P) s6)) = Inr s'"
      by (auto simp: Let_def split: sum.splits)
    let ?s8 = "writelines ?nm P (print (PrintPreamble P) s6)"
    from open_w_Inr [OF o] have s6: "s6 = ?s5\<lparr>fs := (fs ?s5)(?nm \<mapsto> [])\<rparr>" by simp
    have c8: "count ?s8 = ?c + 1" by (simp add: s6)
    have f8: "fs ?s8 = (fs s)(out \<mapsto> t @ l, ?nm \<mapsto> concat P)"
      using fs_writelines [of "print (PrintPreamble P) s6" ?nm "[]" P]
      by (simp add: s6 f3)
    have k8: "console ?s8 = console s @ [Echo (strip l), Separator (?c + 1), Generating ?nm, PrintPreamble P]"
      by (simp add: s6)
    have l8: "locked ?s8 = locked s" by (simp add: s6)
    have "0 \<le> count ?s8" using Cons.prems(2) unfolding c8 by simp
    moreover have "fs ?s8 ?nm = Some (concat P)" unfolding f8 by simp
    ultimately have "s' = ?s8\<lparr>fs := write_chunks P parts (count ?s8 div m + 1)
                    (tl (chunks m (count ?s8) fp))
                    ((fs ?s8)(?nm \<mapsto> concat P @ concat (hd (chunks m (count ?s8) fp)))),
             console := console ?s8 @ loop_events P m parts (count ?s8) fp,
             count := count ?s8 + int (length fp) + 1\<rparr>"
      using run by (rule Cons.IH [OF fp])
    moreover have "?s8 = s\<lparr>fs := fs ?s8, console := console ?s8, count := count ?s8\<rparr>"
      by (rule state.equality) (simp_all add: s6)
    ultimately have res: "s' = s\<lparr>fs := write_chunks P parts ((?c + 1) div m + 1)
                    (tl (chunks m (?c + 1) fp))
                    ((fs s)(out \<mapsto> t @ l, ?nm \<mapsto> concat P @ concat (hd (chunks m (?c + 1) fp)))),
             console := console s @ [Echo (strip l), Separator (?c + 1), Generating ?nm, PrintPreamble P]
                          @ loop_events P m parts (?c + 1) fp,
             count := ?c + 1 + int (length fp) + 1\<rparr>"
      unfolding c8 f8 k8 by simp
    have F: "write_chunks P parts (?c div m + 1) (tl (chunks m ?c (l # fp)))
                    ((fs s)(out \<mapsto> t @ concat (hd (chunks m ?c (l # fp))))) =
          write_chunks P parts ((?c + 1) div m + 1) (tl (chunks m (?c + 1) fp))
                    ((fs s)(out \<mapsto> t @ l, ?nm \<mapsto> concat P @ concat (hd (chunks m (?c + 1) fp))))"
      using True rotation_step(2) [OF m True] ne
      by (cases "chunks m (?c + 1) fp") simp_all
    have K: "loop_events P m parts ?c (l # fp) =
        [Echo (strip l), Separator (?c + 1), Generating ?nm, PrintPreamble P]
          @ loop_events P m parts (?c + 1) fp"
      using True by simp
    have N: "?c + int (length (l # fp)) + 1 = ?c + 1 + int (length fp) + 1" by simp
    show ?thesis unfolding F K N by (rule res)
  qed
qed

lemma name_inj:
  "fst parts @ ''-'' @ str i @ snd parts = fst parts @ ''-'' @ str j @ snd parts \<Longrightarrow> i = j"
  by (auto dest: str_inj)

lemma write_chunks_frame:
  "(\<And>k. k < length chs \<Longrightarrow> p \<noteq> fst parts @ ''-'' @ str (i + int k) @ snd parts) \<Longrightarrow>
   write_chunks P parts i chs f p = f p"
proof (induction chs arbitrary: i f)
  case Nil
  then show ?case by simp
next
  case (Cons ch chs)
  have "p \<noteq> fst parts @ ''-'' @ str (i + 1 + int k) @ snd parts" if "k < length chs" for k
    using Cons.prems [of "Suc k"] that by (simp add: add.assoc)
  then have "write_chunks P parts (i + 1) chs (f(fst parts @ ''-'' @ str i @ snd parts \<mapsto> concat P @ concat ch)) p
      = (f(fst parts @ ''-'' @ str i @ snd parts \<mapsto> concat P @ concat ch)) p"
    by (rule Cons.IH)
  moreover have "p \<noteq> fst parts @ ''-'' @ str i @ snd parts" using Cons.prems [of 0] by simp
  ultimately show ?case by simp
qed

lemma write_chunks_nth:
  "j < length chs \<Longrightarrow>
   write_chunks P parts i chs f (fst parts @ ''-'' @ str (i + int j) @ snd parts) =
     Some (concat P @ concat (chs ! j))"
proof (induction chs arbitrary: i j f)
  case Nil
  then show ?case by simp
next
  case (Cons ch chs)
  show ?case
  proof (cases j)
    case 0
    have "fst parts @ ''-'' @ str i @ snd parts \<noteq> fst parts @ ''-'' @ str (i + 1 + int k) @ snd parts" for k
      using name_inj [of parts i "i + 1 + int k"] by auto
    then have "write_chunks P parts (i + 1) chs (f(fst parts @ ''-'' @ str i @ snd parts \<mapsto> concat P @ concat ch))
         (fst parts @ ''-'' @ str i @ snd parts)
      = (f(fst parts @ ''-'' @ str i @ snd parts \<mapsto> concat P @ concat ch)) (fst parts @ ''-'' @ str i @ snd parts)"
      by (intro write_chunks_frame)
    with 0 show ?thesis by simp
  next
    case (Suc k)
    with Cons.prems have "k < length chs" by simp
    from Cons.IH [OF this, of "i + 1"] Suc show ?thesis by (simp add: add.assoc)
  qed
qed

lemma generated_append [simp]: "generated (a @ b) = generated a @ generated b"
  by (simp add: generated_def)

lemma generated_simps [simp]:
  "generated [] = []"
  "generated (Generating p # evs) = p # generated evs"
  "generated (Echo (strip l) # evs) = generated evs"
  "generated (Separator c # evs) = generated evs"
  "generated (PrintPreamble P # evs) = generated evs"
  "generated (ErrorReadingHeader # evs) = generated evs"
  "generated (ErrorProcessing f e # evs) = generated evs"
  by (simp_all add: generated_def)

lemma generated_loop_events:
  assumes m: "0 < m"
  shows "generated (loop_events P m parts c ls) =
         map (\<lambda>i. fst parts @ ''-'' @ str i @ snd parts) [c div m + 1 .. (c + int (length ls)) div m]"
proof (induction ls arbitrary: c)
  case Nil
  then show ?case by simp
next
  case (Cons l ls)
  have eq: "c + int (length (l # ls)) = c + 1 + int (length ls)" by simp
  show ?case
  proof (cases "(c + 1) mod m = 0")
    case True
    have "(c + 1) div m \<le> (c + 1 + int (length ls)) div m"
      using m by (intro zdiv_mono1) simp_all
    then have "[(c + 1) div m .. (c + 1 + int (length ls)) div m] =
        (c + 1) div m # [(c + 1) div m + 1 .. (c + 1 + int (length ls)) div m]"
      by (rule upto_rec1)
    then show ?thesis
      using True Cons.IH [of "c + 1"] rotation_step(2) [OF m True] unfolding eq by simp
  next
    case False
    then show ?thesis
      using Cons.IH [of "c + 1"] plain_step(2) [OF m False] unfolding eq by simp
  qed
qed

lemma process_file_Inr:
  assumes m: "0 < m" and c: "0 \<le> count s" and run: "process_file P m inp s = Inr s'"
  obtains content where "read_text s inp = Some content"
    and "s' = s\<lparr>fs := write_chunks P (splitext inp) (count s div m)
                     (chunks m (count s) (readlines content)) (fs s),
               console := console s @ [Generating (chunk_name inp (count s div m)), PrintPreamble P]
                            @ loop_events P m (splitext inp) (count s) (readlines content),
               count := count s + int (length (readlines content)) + 1\<rparr>"
proof -
  let ?parts = "splitext inp"
  let ?nm = "fst ?parts @ ''-'' @ str (count s div m) @ snd ?parts"
  let ?s1 = "print (Generating ?nm) s"
  from run obtain content where content: "read_text s inp = Some content"
    by (auto simp: process_file_def open_r_def split: option.splits)
  let ?fp = "readlines content"
  from run content obtain s2 where o: "open_w ?nm ?s1 = Inr s2"
    and loop: "split_loop P m ?parts ?nm ?fp (writelines ?nm P (print (PrintPreamble P) s2)) = Inr s'"
    by (auto simp: process_file_def open_r_def output_filename_pos [OF m c] Let_def split: sum.splits)
  let ?s4 = "writelines ?nm P (print (PrintPreamble P) s2)"
  from open_w_Inr [OF o] have s2: "s2 = ?s1\<lparr>fs := (fs ?s1)(?nm \<mapsto> [])\<rparr>" by simp
  have c4: "count ?s4 = count s" by (simp add: s2)
  have f4: "fs ?s4 = (fs s)(?nm \<mapsto> concat P)"
    using fs_writelines [of "print (PrintPreamble P) s2" ?nm "[]" P] by (simp add: s2)
  have k4: "console ?s4 = console s @ [Generating ?nm, PrintPreamble P]" by (simp add: s2)
  have s4: "?s4 = s\<lparr>fs := fs ?s4, console := console ?s4, count := count ?s4\<rparr>"
    by (rule state.equality) (simp_all add: s2)
  have "[] \<notin> set ?fp" by (rule readlines_nonempty)
  moreover have "0 \<le> count ?s4" using c unfolding c4 .
  moreover have "fs ?s4 ?nm = Some (concat P)" unfolding f4 by simp
  ultimately have "s' = ?s4\<lparr>fs := write_chunks P ?parts (count ?s4 div m + 1)
        (tl (chunks m (count ?s4) ?fp))
        ((fs ?s4)(?nm \<mapsto> concat P @ concat (hd (chunks m (count ?s4) ?fp)))),
      console := console ?s4 @ loop_events P m ?parts (count ?s4) ?fp,
      count := count ?s4 + int (length ?fp) + 1\<rparr>"
    using loop by (rule split_loop_Inr [OF m])
  then have res: "s' = s\<lparr>fs := write_chunks P ?parts (count s div m + 1)
        (tl (chunks m (count s) ?fp))
        ((fs s)(?nm \<mapsto> concat P @ concat (hd (chunks m (count s) ?fp)))),
      console := console s @ [Generating ?nm, PrintPreamble P] @ loop_events P m ?parts (count s) ?fp,
      count := count s + int (length ?fp) + 1\<rparr>"
    unfolding c4 f4 k4 by (subst (asm) s4) (simp add: c4 f4 k4)
  have "write_chunks P ?parts (count s div m) (chunks m (count s) ?fp) (fs s) =
      write_chunks P ?parts (count s div m + 1) (tl (chunks m (count s) ?fp))
        ((fs s)(?nm \<mapsto> concat P @ concat (hd (chunks m (count s) ?fp))))"
    using chunks_nonempty [of m "count s" ?fp] by (cases "chunks m (count s) ?fp") simp_all
  with res content show ?thesis
    by (intro that [of content]) (simp_all add: chunk_name_def)
qed

lemma takeWhile_shorter: "c \<in> set xs \<Longrightarrow> length (takeWhile (\<lambda>x. x \<noteq> c) xs) < length xs"
  by (induction xs) auto

lemma rfind_bounds: "- 1 \<le> rfind p c" "rfind p c < int (length p)"
proof -
  have "length (takeWhile (\<lambda>x. x \<noteq> c) (rev p)) < length p" if "c \<in> set p"
    using that takeWhile_shorter [of c "rev p"] by simp
  then show "- 1 \<le> rfind p c" "rfind p c < int (length p)"
    by (auto simp: rfind_def)
qed

lemma rfind_last:
  assumes "rfind p c < int i" "i < length p"
  shows "p ! i \<noteq> c"
proof
  assume eq: "p ! i = c"
  then have mem: "c \<in> set p" using assms(2) by (metis nth_mem)
  let ?k = "length (takeWhile (\<lambda>x. x \<noteq> c) (rev p))"
  have k: "int (length p) - 1 - int ?k < int i" using assms(1) mem by (simp add: rfind_def)
  then have "length p - 1 - i < ?k" using assms(2) by linarith
  then have "rev p ! (length p - 1 - i) \<noteq> c"
    using nth_mem [of "length p - 1 - i" "takeWhile (\<lambda>x. x \<noteq> c) (rev p)"]
    by (metis (mono_tags, lifting) set_takeWhileD takeWhile_nth)
  moreover have "rev p ! (length p - 1 - i) = p ! i"
    using assms(2) by (simp add: rev_nth)
  ultimately show False using eq by simp
qed

lemma splitext_append: "fst (splitext p) @ snd (splitext p) = p"
  by (simp add: splitext_def Let_def)

lemma splitext_ext_no_sep: "CHR ''/'' \<notin> set (snd (splitext p))"
proof
  assume "CHR ''/'' \<in> set (snd (splitext p))"
  then have d: "rfind p CHR ''/'' < rfind p CHR ''.''"
    and mem: "CHR ''/'' \<in> set (drop (nat (rfind p CHR ''.'')) p)"
    by (auto simp: splitext_def Let_def split: if_splits)
  from mem obtain k where k: "k < length (drop (nat (rfind p CHR ''.'')) p)"
    and eq: "drop (nat (rfind p CHR ''.'')) p ! k = CHR ''/''"
    by (auto simp: in_set_conv_nth)
  let ?i = "nat (rfind p CHR ''.'') + k"
  have "?i < length p" using k by simp
  moreover have "rfind p CHR ''/'' < int ?i" using d by linarith
  ultimately have "p ! ?i \<noteq> CHR ''/''" by (intro rfind_last)
  then show False using eq k by simp
qed

lemma chunk_name_not_input: "chunk_name inp i \<noteq> inp"
proof
  assume "chunk_name inp i = inp"
  then have "length (chunk_name inp i) = length (fst (splitext inp) @ snd (splitext inp))"
    by (simp add: splitext_append)
  then show False by (simp add: chunk_name_def)
qed

lemma chunk_name_inj: "chunk_name inp i = chunk_name inp j \<Longrightarrow> i = j"
  unfolding chunk_name_def by (rule name_inj)

lemma process_file_state:
  assumes "0 < m" "0 \<le> count s" "process_file P m inp s = Inr s'" "read_text s inp = Some content"
  shows "s' = s\<lparr>fs := write_chunks P (splitext inp) (count s div m)
                     (chunks m (count s) (readlines content)) (fs s),
               console := console s @ [Generating (chunk_name inp (count s div m)), PrintPreamble P]
                            @ loop_events P m (splitext inp) (count s) (readlines content),
               count := count s + int (length (readlines content)) + 1\<rparr>"
proof -
  from assms(1-3) obtain content' where c': "read_text s inp = Some content'"
    and s': "s' = s\<lparr>fs := write_chunks P (splitext inp) (count s div m)
                     (chunks m (count s) (readlines content')) (fs s),
               console := console s @ [Generating (chunk_name inp (count s div m)), PrintPreamble P]
                            @ loop_events P m (splitext inp) (count s) (readlines content'),
               count := count s + int (length (readlines content')) + 1\<rparr>"
    by (rule process_file_Inr)
  from c' assms(4) have "content' = content" by simp
  with s' show ?thesis by simp
qed

lemma process_file_input:
  "process_file P m inp s = Inr s' \<Longrightarrow> \<exists>content. read_text s inp = Some content"
  by (auto simp: process_file_def open_r_def split: option.splits)

lemma process_file_count:
  assumes "0 < m" "0 \<le> count s" "process_file P m inp s = Inr s'" "read_text s inp = Some content"
  shows "count s' = count s + int (length (readlines content)) + 1"
  by (subst process_file_state [OF assms]) simp

lemma process_file_locked:
  assumes "0 < m" "0 \<le> count s" "process_file P m inp s = Inr s'"
  shows "locked s' = locked s"
proof -
  from process_file_input [OF assms(3)] obtain content where "read_text s inp = Some content" ..
  from process_file_state [OF assms this] show ?thesis by simp
qed

lemma process_file_outputs:
  assumes "0 < m" "0 \<le> count s" "process_file P m inp s = Inr s'" "read_text s inp = Some content"
  shows "outputs s s' =
         map (chunk_name inp) [count s div m .. (count s + int (length (readlines content))) div m]"
proof -
  let ?q = "count s div m" and ?q' = "(count s + int (length (readlines content))) div m"
  have "?q \<le> ?q'" using assms(1) by (intro zdiv_mono1) simp_all
  then have up: "[?q .. ?q'] = ?q # [?q + 1 .. ?q']" by (rule upto_rec1)
  have "outputs s s' = generated ([Generating (chunk_name inp ?q), PrintPreamble P]
          @ loop_events P m (splitext inp) (count s) (readlines content))"
    unfolding outputs_def by (subst process_file_state [OF assms]) simp
  also have "\<dots> = chunk_name inp ?q # map (chunk_name inp) [?q + 1 .. ?q']"
    using generated_loop_events [OF assms(1), of P "splitext inp" "count s" "readlines content"]
    by (simp add: chunk_name_def [abs_def])
  finally show ?thesis unfolding up by simp
qed

lemma process_file_nth_output:
  assumes "0 < m" "0 \<le> count s" "process_file P m inp s = Inr s'" "read_text s inp = Some content"
    and "j < length (chunks m (count s) (readlines content))"
  shows "outputs s s' ! j = chunk_name inp (count s div m + int j)"
    and "fs s' (chunk_name inp (count s div m + int j)) =
         Some (concat P @ concat (chunks m (count s) (readlines content) ! j))"
proof -
  let ?q = "count s div m" and ?q' = "(count s + int (length (readlines content))) div m"
  let ?chs = "chunks m (count s) (readlines content)"
  have len: "int (length ?chs) = ?q' - ?q + 1" by (rule length_chunks [OF assms(1)])
  with assms(5) have le: "?q + int j \<le> ?q'" by linarith
  then have "[?q .. ?q'] ! j = ?q + int j" by (rule nth_upto)
  moreover have "j < length [?q .. ?q']" using le by simp
  ultimately show "outputs s s' ! j = chunk_name inp (?q + int j)"
    unfolding process_file_outputs [OF assms(1-4)] by simp
  have "fs s' = write_chunks P (splitext inp) ?q ?chs (fs s)"
    by (subst process_file_state [OF assms(1-4)]) simp
  then show "fs s' (chunk_name inp (?q + int j)) = Some (concat P @ concat (?chs ! j))"
    using write_chunks_nth [OF assms(5), of P "splitext inp" ?q "fs s"]
    by (simp add: chunk_name_def)
qed

lemma length_outputs:
  assumes "0 < m" "0 \<le> count s" "process_file P m inp s = Inr s'" "read_text s inp = Some content"
  shows "length (outputs s s') = length (chunks m (count s) (readlines content))"
proof -
  let ?q = "count s div m" and ?q' = "(count s + int (length (readlines content))) div m"
  have "?q \<le> ?q'" using assms(1) by (intro zdiv_mono1) simp_all
  moreover have "int (length (chunks m (count s) (readlines content))) = ?q' - ?q + 1"
    by (rule length_chunks [OF assms(1)])
  ultimately show ?thesis unfolding process_file_outputs [OF assms] by simp
qed

lemma process_file_frame:
  assumes "0 < m" "0 \<le> count s" "process_file P m inp s = Inr s'"
    and "p \<notin> set (outputs s s')"
  shows "fs s' p = fs s p"
proof -
  from process_file_input [OF assms(3)] obtain content where content: "read_text s inp = Some content" ..
  let ?q = "count s div m"
  let ?chs = "chunks m (count s) (readlines content)"
  have "p \<noteq> fst (splitext inp) @ ''-'' @ str (?q + int k) @ snd (splitext inp)"
    if "k < length ?chs" for k
  proof
    assume "p = fst (splitext inp) @ ''-'' @ str (?q + int k) @ snd (splitext inp)"
    then have "p = outputs s s' ! k"
      using process_file_nth_output(1) [OF assms(1-3) content that] by (simp add: chunk_name_def)
    moreover have "k < length (outputs s s')"
      using that length_outputs [OF assms(1-3) content] by simp
    ultimately show False using assms(4) by simp
  qed
  then have "write_chunks P (splitext inp) ?q ?chs (fs s) p = fs s p"
    by (rule write_chunks_frame)
  then show ?thesis by (subst process_file_state [OF assms(1-3) content]) simp
qed

lemma process_file_chunks:
  assumes "0 < m" "0 \<le> count s" "process_file P m inp s = Inr s'" "read_text s inp = Some content"
  shows "map (content_lines P s') (outputs s s') = chunks m (count s) (readlines content)"
proof (rule nth_equalityI)
  let ?chs = "chunks m (count s) (readlines content)"
  show "length (map (content_lines P s') (outputs s s')) = length ?chs"
    using length_outputs [OF assms] by simp
  fix j
  assume "j < length (map (content_lines P s') (outputs s s'))"
  then have j: "j < length ?chs" and j': "j < length (outputs s s')"
    using length_outputs [OF assms] by simp_all
  have "lines_ok (concat ?chs)" by (simp add: concat_chunks lines_ok_readlines)
  moreover have "?chs ! j \<in> set ?chs" using j by simp
  ultimately have "lines_ok (?chs ! j)" by (rule lines_ok_concat)
  then have "readlines (concat (?chs ! j)) = ?chs ! j"
    by (simp add: readlines_def readlines_concat)
  then show "map (content_lines P s') (outputs s s') ! j = ?chs ! j"
    using process_file_nth_output [OF assms j] j' by (simp add: content_lines_def)
qed

lemma process_files_count:
  assumes "0 < m"
  shows "0 \<le> count s \<Longrightarrow> process_files P m inputs s = Inr s' \<Longrightarrow> 0 \<le> count s'"
proof (induction inputs arbitrary: s)
  case Nil
  then show ?case by simp
next
  case (Cons inp inputs)
  from Cons.prems(2) obtain s1 where one: "process_file P m inp s = Inr s1"
    and rest: "process_files P m inputs s1 = Inr s'"
    by (auto split: sum.splits)
  from process_file_input [OF one] obtain content where "read_text s inp = Some content" ..
  from process_file_count [OF assms Cons.prems(1) one this] Cons.prems(1)
  have "0 \<le> count s1" by simp
  then show ?case using rest by (rule Cons.IH)
qed

lemmas eval_defs = main_def read_preamble_def max_lines_of_def MAX_LINES_DEFAULT_def
  process_file_def open_r_def read_text_def readlines_def splitext_def
  rfind_def output_filename_def int_truediv_def str_def str_nat.simps digit_char_def
  strip_def whitespace_def print_def open_w_def writelines_def write_file_def split_loop.simps py_mod_def
  outputs_def generated_def content_lines_def chunk_sizes_def chunk_name_def

lemma chunks_bound:
  assumes m: "0 < m" and ch: "ch \<in> set (chunks m c ls)"
  shows "int (length ch) \<le> m"
proof -
  let ?chs = "chunks m c ls"
  note aux = chunks_sizes_aux [OF m, of c ls]
  have ne: "?chs \<noteq> []" by (rule chunks_nonempty)
  have cm: "0 \<le> c mod m" using m by simp
  from ch obtain j where j: "j < length ?chs" and eq: "ch = ?chs ! j"
    by (auto simp: in_set_conv_nth)
  consider "j = 0" | "0 < j" "Suc j < length ?chs" | "0 < j" "Suc j = length ?chs"
    using j by linarith
  then show ?thesis
  proof cases
    case 1
    then have h: "ch = hd ?chs" using eq ne by (simp add: hd_conv_nth)
    show ?thesis
    proof (cases "length ?chs = 1")
      case True
      with aux have "int (length (hd ?chs)) \<le> m - 1 - c mod m" by simp
      with cm h show ?thesis by simp
    next
      case False
      with ne have "1 < length ?chs" by (cases ?chs) auto
      with aux have "int (length (hd ?chs)) = m - c mod m" by simp
      with cm h show ?thesis by simp
    qed
  next
    case 2
    with aux eq show ?thesis by simp
  next
    case 3
    then have "j = length ?chs - 1" by simp
    with eq have "ch = last ?chs" using last_conv_nth [OF ne] by simp
    with aux show ?thesis by simp
  qed
qed

lemma chunk_sizes_chunks:
  assumes "0 < m" "0 \<le> count s" "process_file P m inp s = Inr s'" "read_text s inp = Some content"
  shows "chunk_sizes P s s' = map (\<lambda>ch. int (length ch)) (chunks m (count s) (readlines content))"
proof -
  have "chunk_sizes P s s' =
      map (\<lambda>ch. int (length ch)) (map (content_lines P s') (outputs s s'))"
    by (simp add: chunk_sizes_def comp_def)
  then show ?thesis by (simp only: process_file_chunks [OF assms])
qed

lemma length_last_chunk:
  assumes m: "0 < m"
  shows "int (length (last (chunks m c ls))) =
         (c + int (length ls)) mod m - (if length (chunks m c ls) = 1 then c mod m else 0)"
proof (induction ls arbitrary: c)
  case Nil
  then show ?case by simp
next
  case (Cons l ls)
  let ?r = "chunks m (c + 1) ls"
  have ne: "?r \<noteq> []" by (rule chunks_nonempty)
  have eq: "c + int (length (l # ls)) = c + 1 + int (length ls)" by simp
  note ih = Cons.IH [of "c + 1"]
  show ?case
  proof (cases "(c + 1) mod m = 0")
    case True
    have ch: "chunks m c (l # ls) = [l] # ?r" using True by simp
    have "last (chunks m c (l # ls)) = last ?r" unfolding ch using ne by simp
    moreover have "length (chunks m c (l # ls)) \<noteq> 1" unfolding ch using ne by simp
    ultimately show ?thesis using ih True unfolding eq by simp
  next
    case False
    have ch: "chunks m c (l # ls) = (l # hd ?r) # tl ?r" using False by simp
    have len: "length (chunks m c (l # ls)) = length ?r" unfolding ch using ne by simp
    note cm = plain_step(1) [OF m False]
    show ?thesis
    proof (cases "length ?r = 1")
      case True
      then obtain x where r: "?r = [x]" by (cases ?r) simp_all
      have "int (length (last (chunks m c (l # ls)))) = 1 + int (length (last ?r))"
        unfolding ch r by simp
      also have "\<dots> = 1 + ((c + 1 + int (length ls)) mod m - (c + 1) mod m)"
        using ih True by simp
      finally show ?thesis unfolding len eq using True cm by simp
    next
      case False
      then have "tl ?r \<noteq> []" using ne by (cases ?r) simp_all
      then have "last (chunks m c (l # ls)) = last ?r"
        unfolding ch using ne by (simp add: last_tl)
      then show ?thesis unfolding len eq using False ih by simp
    qed
  qed
qed

lemma split_loop_succeeds:
  assumes m: "0 < m"
  shows "[] \<notin> set fp \<Longrightarrow> 0 \<le> count s \<Longrightarrow> \<forall>p. \<not> locked s p \<Longrightarrow>
         \<exists>s'. split_loop P m parts out fp s = Inr s'"
proof (induction fp arbitrary: s out)
  case Nil
  then show ?case by (simp add: split_loop_Nil)
next
  case (Cons l fp)
  have l: "l \<noteq> []" and fp: "[] \<notin> set fp" using Cons.prems(1) by auto
  show ?case
  proof (cases "(count s + 1) mod m = 0")
    case False
    have "\<exists>s'. split_loop P m parts out fp
        (write_file out l (print (Echo (strip l)) (s\<lparr>count := count s + 1\<rparr>))) = Inr s'"
      using Cons.prems(2,3) by (intro Cons.IH [OF fp]) simp_all
    then show ?thesis by (simp only: split_loop_plain [OF m l False])
  next
    case True
    let ?nm = "fst parts @ ''-'' @ str ((count s + 1) div m) @ snd parts"
    let ?s5 = "print (Generating ?nm) (print (Separator (count s + 1))
                     (write_file out l (print (Echo (strip l)) (s\<lparr>count := count s + 1\<rparr>))))"
    let ?s6 = "?s5\<lparr>fs := (fs ?s5)(?nm \<mapsto> [])\<rparr>"
    have o: "open_w ?nm ?s5 = Inr ?s6" using Cons.prems(3) by (intro open_w_unlocked) simp
    have "\<exists>s'. split_loop P m parts ?nm fp (writelines ?nm P (print (PrintPreamble P) ?s6)) = Inr s'"
      using Cons.prems(2,3) by (intro Cons.IH [OF fp]) simp_all
    with o show ?thesis
      unfolding split_loop_rotate [OF m l True Cons.prems(2)] Let_def by simp
  qed
qed

lemma process_file_succeeds:
  assumes "0 < m" "0 \<le> count s" "read_text s inp = Some content" "\<forall>p. \<not> locked s p"
  shows "\<exists>s'. process_file P m inp s = Inr s'"
proof -
  let ?nm = "fst (splitext inp) @ ''-'' @ str (count s div m) @ snd (splitext inp)"
  let ?s1 = "print (Generating ?nm) s"
  let ?s2 = "?s1\<lparr>fs := (fs ?s1)(?nm \<mapsto> [])\<rparr>"
  have o: "open_w ?nm ?s1 = Inr ?s2" using assms(4) by (intro open_w_unlocked) simp
  have "\<exists>s'. split_loop P m (splitext inp) ?nm (readlines content)
            (writelines ?nm P (print (PrintPreamble P) ?s2)) = Inr s'"
    using assms(2,4) readlines_nonempty [of content]
    by (intro split_loop_succeeds [OF assms(1)]) simp_all
  with o show ?thesis
    by (simp add: process_file_def open_r_def assms(3) output_filename_pos [OF assms(1,2)] Let_def)
qed

section \<open>SplitFile: the whole run\<close>

lemma main_alt:
  "main a s =
     (case process_files (loaded_preamble a s) (max_lines_of (size_arg a)) (files_arg a)
             (start_state a s) of
        Inl (input_filename, ex, s3) \<Rightarrow> print (ErrorProcessing input_filename ex) s3
      | Inr s3 \<Rightarrow> s3)"
  by (simp add: main_def loaded_preamble_def start_state_def Let_def split: prod.splits)

lemma start_state_simps [simp]:
  "fs (start_state a s) = fs s" "locked (start_state a s) = locked s"
  "count (start_state a s) = 0"
  by (auto simp: start_state_def read_preamble_def open_r_def split: option.splits)

lemma read_text_start_state [simp]: "read_text (start_state a s) = read_text s"
  by (rule ext) (simp add: read_text_def)

lemma read_text_None: "fs s p = None \<Longrightarrow> read_text s p = None"
  by (simp add: read_text_def)

lemma universal_newlines_id: "CHR 0x0D \<notin> set t \<Longrightarrow> universal_newlines t = t"
  by (induction t rule: universal_newlines.induct) auto

lemma read_text_plain:
  "fs s p = Some t \<Longrightarrow> CHR 0x0D \<notin> set t \<Longrightarrow> read_text s p = Some t"
  by (simp add: read_text_def universal_newlines_id)

lemma universal_newlines_no_cr: "CHR 0x0D \<notin> set (universal_newlines t)"
  by (induction t rule: universal_newlines.induct) auto

lemma console_start_state:
  "console (start_state a s) = console s \<or>
   console (start_state a s) = console s @ [ErrorReadingHeader]"
  by (auto simp: start_state_def read_preamble_def open_r_def split: option.splits)

lemma max_lines_of_nonzero: "max_lines_of sz \<noteq> 0"
  by (simp add: max_lines_of_def MAX_LINES_DEFAULT_def split: option.splits)

lemma outputs_start_state:
  assumes "console s' = console (start_state a s) @ evs"
  shows "outputs s s' = generated evs" and "outputs (start_state a s) s' = generated evs"
  using console_start_state [of a s] assms by (auto simp: outputs_def)

lemma process_file_console:
  assumes "0 < m" "0 \<le> count s" "process_file P m inp s = Inr s'"
  shows "\<exists>evs. console s' = console s @ evs"
proof -
  from process_file_input [OF assms(3)] obtain content where "read_text s inp = Some content" ..
  from process_file_state [OF assms this] show ?thesis by simp
qed

lemma main_sole:
  assumes "files_arg a = [inp]"
    and "process_file (loaded_preamble a s) (max_lines_of (size_arg a)) inp (start_state a s) = Inr s'"
  shows "main a s = s'"
  using assms by (simp add: main_alt)

lemma main_sole_outputs:
  assumes "files_arg a = [inp]" "0 < max_lines_of (size_arg a)"
    and "process_file (loaded_preamble a s) (max_lines_of (size_arg a)) inp (start_state a s) = Inr s'"
  shows "outputs s (main a s) = outputs (start_state a s) s'"
    and "chunk_sizes P s (main a s) = chunk_sizes P (start_state a s) s'"
proof -
  have "0 \<le> count (start_state a s)" by simp
  from process_file_console [OF assms(2) this assms(3)]
  obtain evs where "console s' = console (start_state a s) @ evs" ..
  from outputs_start_state [OF this] main_sole [OF assms(1,3)]
  show "outputs s (main a s) = outputs (start_state a s) s'" by simp
  then show "chunk_sizes P s (main a s) = chunk_sizes P (start_state a s) s'"
    using main_sole [OF assms(1,3)] by (simp add: chunk_sizes_def)
qed

section \<open>SplitFile: names of the output files\<close>

lemma digit_char_mem: "d < 10 \<Longrightarrow> digit_char d \<in> set ''0123456789''"
  unfolding digit_char_def by (intro nth_mem) simp

lemma str_nat_chars: "c \<in> set (str_nat n) \<Longrightarrow> c \<in> set ''0123456789''"
proof (induction n rule: str_nat.induct)
  case (1 n)
  show ?case
  proof (cases "n < 10")
    case True
    then have "str_nat n = [digit_char n]" by (subst str_nat.simps) simp
    with "1.prems" digit_char_mem [OF True] show ?thesis by simp
  next
    case False
    then have "str_nat n = str_nat (n div 10) @ [digit_char (n mod 10)]"
      by (subst str_nat.simps) simp
    with "1.prems" "1.IH" [OF False] digit_char_mem [of "n mod 10"] show ?thesis by auto
  qed
qed

lemma str_no_sep: "CHR ''/'' \<notin> set (str i)"
  using str_nat_chars [of "CHR ''/''"] by (auto simp: str_def)

lemma rfind_append:
  assumes "c \<notin> set x"
  shows "rfind (p @ x) c = rfind p c"
proof (cases "c \<in> set p")
  case True
  have "takeWhile (\<lambda>y. y \<noteq> c) (rev x @ rev p) = rev x @ takeWhile (\<lambda>y. y \<noteq> c) (rev p)"
    using assms by (intro takeWhile_append2) auto
  with True show ?thesis by (simp add: rfind_def)
next
  case False
  with assms show ?thesis by (simp add: rfind_def)
qed

lemma dir_of_append:
  assumes "CHR ''/'' \<notin> set x"
  shows "dir_of (p @ x) = dir_of p"
proof -
  have "nat (rfind p CHR ''/'' + 1) \<le> length p" using rfind_bounds(2) [of p "CHR ''/''"] by simp
  then show ?thesis by (simp add: dir_of_def rfind_append [OF assms])
qed

lemma dir_of_chunk_name: "dir_of (chunk_name inp i) = dir_of inp"
proof -
  have "CHR ''/'' \<notin> set (''-'' @ str i @ snd (splitext inp))"
    using str_no_sep [of i] splitext_ext_no_sep [of inp] by simp
  then have "dir_of (fst (splitext inp) @ (''-'' @ str i @ snd (splitext inp))) =
      dir_of (fst (splitext inp))"
    by (rule dir_of_append)
  moreover have "dir_of (fst (splitext inp) @ snd (splitext inp)) = dir_of (fst (splitext inp))"
    using splitext_ext_no_sep [of inp] by (rule dir_of_append)
  ultimately show ?thesis by (simp add: chunk_name_def splitext_append)
qed

lemma outputs_new_events: "outputs s s' = generated (new_events s s')"
  by (simp add: outputs_def new_events_def)

lemma rotations_loop_events:
  assumes m: "0 < m"
  shows "rotations (loop_events P m parts c ls) =
         map (\<lambda>i. (i * m, fst parts @ ''-'' @ str i @ snd parts))
           [c div m + 1 .. (c + int (length ls)) div m]"
proof (induction ls arbitrary: c)
  case Nil
  then show ?case by simp
next
  case (Cons l ls)
  have eq: "c + int (length (l # ls)) = c + 1 + int (length ls)" by simp
  show ?case
  proof (cases "(c + 1) mod m = 0")
    case True
    have "(c + 1) div m \<le> (c + 1 + int (length ls)) div m"
      using m by (intro zdiv_mono1) simp_all
    then have up: "[(c + 1) div m .. (c + 1 + int (length ls)) div m] =
        (c + 1) div m # [(c + 1) div m + 1 .. (c + 1 + int (length ls)) div m]"
      by (rule upto_rec1)
    have mult: "(c + 1) div m * m = c + 1" using True by (simp add: mod_eq_0_iff_dvd)
    have "rotations (loop_events P m parts c (l # ls)) =
        (c + 1, fst parts @ ''-'' @ str ((c + 1) div m) @ snd parts) #
          rotations (loop_events P m parts (c + 1) ls)"
      using True by simp
    then show ?thesis
      using Cons.IH [of "c + 1"] rotation_step(2) [OF m True] mult up unfolding eq by simp
  next
    case False
    have "rotations (loop_events P m parts c (l # ls)) = rotations (loop_events P m parts (c + 1) ls)"
      using False by simp
    then show ?thesis
      using Cons.IH [of "c + 1"] plain_step(2) [OF m False] unfolding eq by simp
  qed
qed

lemma process_file_rotations:
  assumes "0 < m" "0 \<le> count s" "process_file P m inp s = Inr s'" "read_text s inp = Some content"
  shows "rotations (new_events s s') =
         map (\<lambda>i. (i * m, chunk_name inp i))
           [count s div m + 1 .. (count s + int (length (readlines content))) div m]"
proof -
  have "new_events s s' = [Generating (chunk_name inp (count s div m)), PrintPreamble P]
          @ loop_events P m (splitext inp) (count s) (readlines content)"
    unfolding new_events_def by (subst process_file_state [OF assms]) simp
  then show ?thesis
    using rotations_loop_events [OF assms(1), of P "splitext inp" "count s" "readlines content"]
    by (simp add: chunk_name_def [abs_def])
qed

section \<open>SplitFile: the console does not steer the run\<close>

lemma main_run_files:
  "main a s = run_files (loaded_preamble a s) (max_lines_of (size_arg a)) (files_arg a) (start_state a s)"
  by (simp add: main_alt run_files_def)

lemma split_loop_Cons:
  "split_loop P m parts out (l # fp) s =
     (if l = [] then Inr (s\<lparr>count := count s + 1\<rparr>)
      else
        let s3 = write_file out l (print (Echo (strip l)) (s\<lparr>count := count s + 1\<rparr>))
        in case py_mod (count s + 1) m of
             Inl e \<Rightarrow> Inl (e, s3)
           | Inr r \<Rightarrow>
               if r = 0 then
                 (case output_filename parts (count s + 1) m of
                    Inl e \<Rightarrow> Inl (e, s3)
                  | Inr nm \<Rightarrow>
                      let s5 = print (Generating nm) (print (Separator (count s + 1)) s3)
                      in (case open_w nm s5 of
                            Inl e \<Rightarrow> Inl (e, s5)
                          | Inr s6 \<Rightarrow>
                              split_loop P m parts nm fp
                                (writelines nm P (print (PrintPreamble P) s6))))
               else split_loop P m parts out fp s3)"
  by (subst split_loop.simps) (simp add: Let_def split: sum.splits)

lemma shift_simps [simp]:
  "fs (shift k s) = fs s" "locked (shift k s) = locked s" "count (shift k s) = count s"
  "console (shift k s) = k @ console s"
  by (simp_all add: shift_def)

lemma shift_print: "print e (shift k s) = shift k (print e s)"
  by (simp add: print_def shift_def)

lemma shift_write_file: "write_file p d (shift k s) = shift k (write_file p d s)"
  by (simp add: write_file_def shift_def)

lemma shift_writelines: "writelines p ls (shift k s) = shift k (writelines p ls s)"
  unfolding writelines_def by (induction ls arbitrary: s) (simp_all add: shift_write_file)

lemma shift_count: "(shift k s)\<lparr>count := c\<rparr> = shift k (s\<lparr>count := c\<rparr>)"
  by (simp add: shift_def)

lemma shift_open_w: "open_w p (shift k s) = map_sum id (shift k) (open_w p s)"
  by (simp add: open_w_def shift_def)

lemma shift_result_simps [simp]:
  "shift_result k (Inl (e, s)) = Inl (e, shift k s)"
  "shift_result k (Inr s) = Inr (shift k s)"
  by (simp_all add: shift_result_def)

lemma shift_split_loop:
  "split_loop P m parts out fp (shift k s) = shift_result k (split_loop P m parts out fp s)"
proof (induction fp arbitrary: s out)
  case Nil
  then show ?case by (simp add: split_loop_Nil shift_count)
next
  case (Cons l fp)
  show ?case
    unfolding split_loop_Cons
    by (simp add: Let_def shift_count shift_print shift_write_file shift_writelines shift_open_w
        Cons.IH split: sum.splits)
qed

lemma shift_process_file:
  "process_file P m inp (shift k s) = shift_result k (process_file P m inp s)"
  unfolding process_file_def
  by (simp add: Let_def open_r_def read_text_def shift_print shift_writelines shift_open_w
      shift_split_loop split: sum.splits option.splits)

lemma shift_process_files:
  "process_files P m inputs (shift k s) =
     (case process_files P m inputs s of
        Inl (f, e, s') \<Rightarrow> Inl (f, e, shift k s')
      | Inr s' \<Rightarrow> Inr (shift k s'))"
proof (induction inputs arbitrary: s)
  case Nil
  then show ?case by simp
next
  case (Cons inp inputs)
  show ?case
    by (simp add: shift_process_file Cons.IH split: sum.splits)
qed

lemma shift_run_files: "run_files P m inputs (shift k s) = shift k (run_files P m inputs s)"
  by (simp add: run_files_def shift_process_files shift_print split: sum.splits)

lemma state_as_shift: "s = shift (console s) (s\<lparr>console := []\<rparr>)"
  by (simp add: shift_def)

section \<open>SplitFile: what any run leaves alone\<close>

lemma outcome_simps [simp]: "outcome (Inl (e, s)) = s" "outcome (Inr s) = s"
  by (simp_all add: outcome_def)

lemma frame_refl: "frame out s s"
  by (simp add: frame_def)

lemma frame_step:
  assumes "console s1 = console s @ evs1"
    and "locked s1 = locked s"
    and "\<And>p. p \<noteq> out \<Longrightarrow> p \<notin> set (generated evs1) \<Longrightarrow> fs s1 p = fs s p"
    and "\<And>p. fs s p \<noteq> None \<Longrightarrow> fs s1 p \<noteq> None"
    and "out1 = out \<or> out1 \<in> set (generated evs1)"
    and "frame out1 s1 s'"
  shows "frame out s s'"
proof -
  from assms(6) obtain evs where c: "console s' = console s1 @ evs"
    and f: "\<And>p. p \<noteq> out1 \<Longrightarrow> p \<notin> set (generated evs) \<Longrightarrow> fs s' p = fs s1 p"
    and l: "locked s' = locked s1"
    and d: "\<And>p. fs s1 p \<noteq> None \<Longrightarrow> fs s' p \<noteq> None"
    unfolding frame_def by blast
  have "console s' = console s @ (evs1 @ evs)" using c assms(1) by simp
  moreover have "fs s' p = fs s p" if "p \<noteq> out" "p \<notin> set (generated (evs1 @ evs))" for p
  proof -
    from that have "p \<noteq> out1" "p \<notin> set (generated evs)" "p \<notin> set (generated evs1)"
      using assms(5) by auto
    then show ?thesis using f [of p] assms(3) [of p] that(1) by simp
  qed
  moreover have "locked s' = locked s" using l assms(2) by simp
  moreover have "fs s' p \<noteq> None" if "fs s p \<noteq> None" for p
    using that assms(4) [of p] d [of p] by blast
  ultimately show ?thesis unfolding frame_def by blast
qed

lemma fs_write_file_other: "q \<noteq> p \<Longrightarrow> fs (write_file p d s) q = fs s q"
  by (simp add: write_file_def)

lemma fs_write_file_dom: "fs s q \<noteq> None \<Longrightarrow> fs (write_file p d s) q \<noteq> None"
  by (simp add: write_file_def)

lemma fs_writelines_other: "q \<noteq> p \<Longrightarrow> fs (writelines p ls s) q = fs s q"
  unfolding writelines_def by (induction ls arbitrary: s) (simp_all add: fs_write_file_other)

lemma fs_writelines_dom: "fs s q \<noteq> None \<Longrightarrow> fs (writelines p ls s) q \<noteq> None"
  unfolding writelines_def
proof (induction ls arbitrary: s)
  case Nil
  then show ?case by simp
next
  case (Cons l ls)
  from Cons.prems have "fs (write_file p l s) q \<noteq> None" by (rule fs_write_file_dom)
  then have "fs (fold (write_file p) ls (write_file p l s)) q \<noteq> None" by (rule Cons.IH)
  then show ?case by simp
qed

lemma split_loop_frame: "frame out s (outcome (split_loop P m parts out fp s))"
proof (induction fp arbitrary: s out)
  case Nil
  then show ?case by (simp add: split_loop_Nil frame_def)
next
  case (Cons l fp)
  let ?c = "count s + 1"
  let ?s3 = "write_file out l (print (Echo (strip l)) (s\<lparr>count := ?c\<rparr>))"
  have s3: "frame out s ?s3"
    unfolding frame_def
    by (auto simp: fs_write_file_other fs_write_file_dom intro!: exI [of _ "[Echo (strip l)]"])
  show ?case
  proof (cases "l = []")
    case True
    then show ?thesis by (simp add: split_loop_Cons frame_def)
  next
    case l: False
    show ?thesis
    proof (cases "py_mod ?c m")
      case (Inl e)
      with l s3 show ?thesis by (simp add: split_loop_Cons Let_def)
    next
      case (Inr r)
      show ?thesis
      proof (cases "r = 0")
        case False
        have "frame out ?s3 (outcome (split_loop P m parts out fp ?s3))" by (rule Cons.IH)
        then have "frame out s (outcome (split_loop P m parts out fp ?s3))"
        proof (rule frame_step [where ?evs1.0 = "[Echo (strip l)]", rotated -1])
          show "console ?s3 = console s @ [Echo (strip l)]" by simp
          show "locked ?s3 = locked s" by simp
          show "fs ?s3 p = fs s p" if "p \<noteq> out" for p
            using that by (simp add: fs_write_file_other)
          show "fs ?s3 p \<noteq> None" if "fs s p \<noteq> None" for p
          proof -
            from that have "fs (print (Echo (strip l)) (s\<lparr>count := ?c\<rparr>)) p \<noteq> None" by simp
            then show ?thesis by (rule fs_write_file_dom)
          qed
          show "out = out \<or> out \<in> set (generated [Echo (strip l)])" by simp
        qed
        with l Inr False show ?thesis by (simp add: split_loop_Cons Let_def)
      next
        case True
        show ?thesis
        proof (cases "output_filename parts ?c m")
          case (Inl e)
          with l Inr True s3 show ?thesis by (simp add: split_loop_Cons Let_def)
        next
          case nm: (Inr nm)
          let ?s5 = "print (Generating nm) (print (Separator ?c) ?s3)"
          show ?thesis
          proof (cases "open_w nm ?s5")
            case (Inl e)
            have "frame out s ?s5"
              unfolding frame_def
              by (auto simp: fs_write_file_other fs_write_file_dom
                  intro!: exI [of _ "[Echo (strip l), Separator ?c, Generating nm]"])
            with l Inr True nm Inl show ?thesis by (simp add: split_loop_Cons Let_def)
          next
            case s6: (Inr s6)
            let ?s8 = "writelines nm P (print (PrintPreamble P) s6)"
            from open_w_Inr [OF s6] have e6: "s6 = ?s5\<lparr>fs := (fs ?s5)(nm \<mapsto> [])\<rparr>" by simp
            have "frame nm ?s8 (outcome (split_loop P m parts nm fp ?s8))" by (rule Cons.IH)
            then have "frame out s (outcome (split_loop P m parts nm fp ?s8))"
            proof (rule frame_step [where ?evs1.0 =
                "[Echo (strip l), Separator ?c, Generating nm, PrintPreamble P]", rotated -1])
              show "console ?s8 = console s @ [Echo (strip l), Separator ?c, Generating nm, PrintPreamble P]"
                by (simp add: e6)
              show "locked ?s8 = locked s" by (simp add: e6)
              show "fs ?s8 p = fs s p"
                if "p \<noteq> out" "p \<notin> set (generated [Echo (strip l), Separator ?c, Generating nm, PrintPreamble P])"
                for p
                using that by (simp add: fs_writelines_other e6 fs_write_file_other)
              show "fs ?s8 p \<noteq> None" if "fs s p \<noteq> None" for p
              proof -
                from that have "fs (print (Echo (strip l)) (s\<lparr>count := ?c\<rparr>)) p \<noteq> None" by simp
                then have "fs ?s3 p \<noteq> None" by (rule fs_write_file_dom)
                then have "fs (print (PrintPreamble P) s6) p \<noteq> None" by (simp add: e6)
                then show ?thesis by (rule fs_writelines_dom)
              qed
              show "nm = out \<or> nm \<in> set (generated [Echo (strip l), Separator ?c, Generating nm, PrintPreamble P])"
                by simp
            qed
            with l Inr True nm s6 show ?thesis by (simp add: split_loop_Cons Let_def)
          qed
        qed
      qed
    qed
  qed
qed

lemma process_file_outcome:
  fixes P m inp s
  defines "s' \<equiv> outcome (process_file P m inp s)"
  shows "(\<exists>evs. console s' = console s @ evs) \<and> locked s' = locked s \<and>
         (\<forall>p. p \<notin> set (outputs s s') \<longrightarrow> fs s' p = fs s p) \<and>
         (\<forall>p. fs s p \<noteq> None \<longrightarrow> fs s' p \<noteq> None)"
proof (cases "open_r inp s")
  case (Inl e)
  then have "s' = s" by (simp add: s'_def process_file_def)
  then show ?thesis by simp
next
  case fp: (Inr fp)
  show ?thesis
  proof (cases "output_filename (splitext inp) (count s) m")
    case (Inl e)
    with fp have "s' = s" by (simp add: s'_def process_file_def)
    then show ?thesis by simp
  next
    case nm: (Inr nm)
    let ?s1 = "print (Generating nm) s"
    show ?thesis
    proof (cases "open_w nm ?s1")
      case (Inl e)
      with fp nm have "s' = ?s1" by (simp add: s'_def process_file_def)
      then show ?thesis by (simp add: outputs_def)
    next
      case s2: (Inr s2)
      let ?s4 = "writelines nm P (print (PrintPreamble P) s2)"
      from open_w_Inr [OF s2] have e2: "s2 = ?s1\<lparr>fs := (fs ?s1)(nm \<mapsto> [])\<rparr>" by simp
      have s': "s' = outcome (split_loop P m (splitext inp) nm fp ?s4)"
        using fp nm s2 by (simp add: s'_def process_file_def)
      have "frame nm ?s4 s'" unfolding s' by (rule split_loop_frame)
      then have "frame nm s s'"
      proof (rule frame_step [where ?evs1.0 = "[Generating nm, PrintPreamble P]", rotated -1])
        show "console ?s4 = console s @ [Generating nm, PrintPreamble P]" by (simp add: e2)
        show "locked ?s4 = locked s" by (simp add: e2)
        show "fs ?s4 p = fs s p" if "p \<noteq> nm" for p
          using that by (simp add: fs_writelines_other e2)
        show "fs ?s4 p \<noteq> None" if "fs s p \<noteq> None" for p
        proof -
          from that have "fs (print (PrintPreamble P) s2) p \<noteq> None" by (simp add: e2)
          then show ?thesis by (rule fs_writelines_dom)
        qed
        show "nm = nm \<or> nm \<in> set (generated [Generating nm, PrintPreamble P])" by simp
      qed
      then obtain evs where c: "console s' = console s @ evs"
        and f: "\<And>p. p \<noteq> nm \<Longrightarrow> p \<notin> set (generated evs) \<Longrightarrow> fs s' p = fs s p"
        and l: "locked s' = locked s"
        and d: "\<And>p. fs s p \<noteq> None \<Longrightarrow> fs s' p \<noteq> None"
        unfolding frame_def by blast
      from c have o: "outputs s s' = generated evs" by (simp add: outputs_def)
      have "console ?s4 = console s @ [Generating nm, PrintPreamble P]" by (simp add: e2)
      moreover from \<open>frame nm ?s4 s'\<close> obtain evs' where "console s' = console ?s4 @ evs'"
        unfolding frame_def by blast
      ultimately have "evs = [Generating nm, PrintPreamble P] @ evs'" using c by simp
      then have "nm \<in> set (generated evs)" by simp
      with f have "fs s' p = fs s p" if "p \<notin> set (outputs s s')" for p
        using that unfolding o by (cases "p = nm") simp_all
      with c l d show ?thesis by blast
    qed
  qed
qed

lemma process_files_append:
  "process_files P m (earlier @ f # later) s =
     (case process_files P m earlier s of
        Inl x \<Rightarrow> Inl x
      | Inr s1 \<Rightarrow>
          (case process_file P m f s1 of
             Inl (e, s2) \<Rightarrow> Inl (f, e, s2)
           | Inr s2 \<Rightarrow> process_files P m later s2))"
  by (induction earlier arbitrary: s) (simp_all split: sum.splits)

lemma process_file_not_found:
  "fs s inp = None \<Longrightarrow> process_file P m inp s = Inl (FileNotFoundError inp, s)"
  by (simp add: process_file_def open_r_def read_text_def)

section \<open>ics\_parser: the sort\<close>

lemmas ics_defs = parse_ics_to_human_readable_def sort_events_def collect_events_def
  make_event_def sort_key_dt_def key_of_def text_or_def midnight_def datetime_min_def
  strip_def whitespace_def split_def render_event_def

lemma datetime_lt_same:
  "tzinfo_of a = tzinfo_of b \<Longrightarrow> datetime_lt a b = Inr (wall_clock a < wall_clock b)"
  by (cases a; cases b) (simp_all add: tzinfo_of_def wall_clock_def)

lemma datetime_lt_kind:
  "is_naive a = is_naive b \<Longrightarrow> \<exists>r. datetime_lt a b = Inr r"
  by (cases a; cases b) (simp_all add: is_naive_def)

lemma datetime_lt_mixed:
  "is_naive a \<noteq> is_naive b \<Longrightarrow> datetime_lt a b = Inl TypeError"
  by (cases a; cases b) (simp_all add: is_naive_def)

lemma is_naive_tzinfo: "is_naive k \<longleftrightarrow> tzinfo_of k = None"
  by (cases k) (simp_all add: is_naive_def tzinfo_of_def)

lemma insert_event_kind:
  assumes "\<forall>y \<in> set ys. is_naive (key_of y) = is_naive (key_of x)"
  shows "\<exists>r. insert_event x ys = Inr r \<and> set r = insert x (set ys)"
  using assms
proof (induction ys)
  case Nil
  then show ?case by simp
next
  case (Cons y ys)
  from Cons.prems have "is_naive (key_of x) = is_naive (key_of y)" by simp
  from datetime_lt_kind [OF this] obtain b where lt: "datetime_lt (key_of x) (key_of y) = Inr b" ..
  show ?case
  proof (cases b)
    case True
    then show ?thesis using lt by auto
  next
    case False
    from Cons.IH Cons.prems obtain r where r: "insert_event x ys = Inr r"
      "set r = insert x (set ys)"
      by auto
    have "insert_event x (y # ys) = Inr (y # r)" using lt False r(1) by simp
    moreover have "set (y # r) = insert x (set (y # ys))" using r(2) by auto
    ultimately show ?thesis by blast
  qed
qed

lemma insert_event_same:
  assumes "\<forall>y \<in> set ys. tzinfo_of (key_of y) = tzinfo_of (key_of x)"
  shows "\<exists>r. insert_event x ys = Inr r \<and> set r = insert x (set ys) \<and>
           (sorted_wrt (\<lambda>a b. wall_clock (key_of a) \<le> wall_clock (key_of b)) ys \<longrightarrow>
            sorted_wrt (\<lambda>a b. wall_clock (key_of a) \<le> wall_clock (key_of b)) r)"
  using assms
proof (induction ys)
  case Nil
  then show ?case by simp
next
  case (Cons y ys)
  have lt: "datetime_lt (key_of x) (key_of y) =
      Inr (wall_clock (key_of x) < wall_clock (key_of y))"
    using Cons.prems by (intro datetime_lt_same) simp
  show ?case
  proof (cases "wall_clock (key_of x) < wall_clock (key_of y)")
    case True
    then show ?thesis using lt by auto
  next
    case False
    from Cons.IH Cons.prems obtain r where r: "insert_event x ys = Inr r"
      "set r = insert x (set ys)"
      "sorted_wrt (\<lambda>a b. wall_clock (key_of a) \<le> wall_clock (key_of b)) ys \<longrightarrow>
       sorted_wrt (\<lambda>a b. wall_clock (key_of a) \<le> wall_clock (key_of b)) r"
      by auto
    have "insert_event x (y # ys) = Inr (y # r)" using lt False r(1) by simp
    moreover have "set (y # r) = insert x (set (y # ys))" using r(2) by auto
    moreover have "sorted_wrt (\<lambda>a b. wall_clock (key_of a) \<le> wall_clock (key_of b)) (y # r)"
      if "sorted_wrt (\<lambda>a b. wall_clock (key_of a) \<le> wall_clock (key_of b)) (y # ys)"
      using that r(2,3) False by auto
    ultimately show ?thesis by blast
  qed
qed

lemma insert_event_mixed:
  assumes "\<forall>y \<in> set ys. \<forall>y' \<in> set ys. is_naive (key_of y) = is_naive (key_of y')"
    and "z \<in> set ys" and "is_naive (key_of z) \<noteq> is_naive (key_of x)"
  shows "insert_event x ys = Inl TypeError"
proof (cases ys)
  case Nil
  with assms(2) show ?thesis by simp
next
  case (Cons y ys')
  with assms have "is_naive (key_of x) \<noteq> is_naive (key_of y)" by auto
  then have "datetime_lt (key_of x) (key_of y) = Inl TypeError" by (rule datetime_lt_mixed)
  with Cons show ?thesis by simp
qed

lemma sort_into_same:
  assumes "\<forall>y \<in> set placed \<union> set xs. tzinfo_of (key_of y) = z"
  shows "\<exists>r. sort_into placed xs = Inr r \<and> set r = set placed \<union> set xs \<and>
           (sorted_wrt (\<lambda>a b. wall_clock (key_of a) \<le> wall_clock (key_of b)) placed \<longrightarrow>
            sorted_wrt (\<lambda>a b. wall_clock (key_of a) \<le> wall_clock (key_of b)) r)"
  using assms
proof (induction xs arbitrary: placed)
  case Nil
  then show ?case by simp
next
  case (Cons x xs)
  have "\<forall>y \<in> set placed. tzinfo_of (key_of y) = tzinfo_of (key_of x)" using Cons.prems by simp
  from insert_event_same [OF this] obtain p where p: "insert_event x placed = Inr p"
    "set p = insert x (set placed)"
    "sorted_wrt (\<lambda>a b. wall_clock (key_of a) \<le> wall_clock (key_of b)) placed \<longrightarrow>
     sorted_wrt (\<lambda>a b. wall_clock (key_of a) \<le> wall_clock (key_of b)) p"
    by blast
  have "\<forall>y \<in> set p \<union> set xs. tzinfo_of (key_of y) = z" using Cons.prems p(2) by auto
  from Cons.IH [OF this] obtain r where r: "sort_into p xs = Inr r" "set r = set p \<union> set xs"
    "sorted_wrt (\<lambda>a b. wall_clock (key_of a) \<le> wall_clock (key_of b)) p \<longrightarrow>
     sorted_wrt (\<lambda>a b. wall_clock (key_of a) \<le> wall_clock (key_of b)) r"
    by blast
  have "sort_into placed (x # xs) = Inr r" using p(1) r(1) by simp
  moreover have "set r = set placed \<union> set (x # xs)" using r(2) p(2) by auto
  ultimately show ?case using p(3) r(3) by blast
qed

lemma sort_into_mixed:
  assumes "\<forall>y \<in> set placed. \<forall>y' \<in> set placed. is_naive (key_of y) = is_naive (key_of y')"
    and "e1 \<in> set placed \<union> set xs" and "e2 \<in> set placed \<union> set xs"
    and "is_naive (key_of e1) \<noteq> is_naive (key_of e2)"
  shows "sort_into placed xs = Inl TypeError"
  using assms
proof (induction xs arbitrary: placed)
  case Nil
  from Nil.prems(2,3) have "e1 \<in> set placed" "e2 \<in> set placed" by simp_all
  with Nil.prems(1) have "is_naive (key_of e1) = is_naive (key_of e2)" by blast
  with Nil.prems(4) show ?case by simp
next
  case (Cons x xs)
  show ?case
  proof (cases "\<exists>z \<in> set placed. is_naive (key_of z) \<noteq> is_naive (key_of x)")
    case True
    then obtain z where "z \<in> set placed" "is_naive (key_of z) \<noteq> is_naive (key_of x)" by blast
    from insert_event_mixed [OF Cons.prems(1) this] show ?thesis by simp
  next
    case False
    then have same: "\<forall>y \<in> set placed. is_naive (key_of y) = is_naive (key_of x)" by blast
    from insert_event_kind [OF this] obtain p where p: "insert_event x placed = Inr p"
      "set p = insert x (set placed)"
      by blast
    have kx: "is_naive (key_of y) = is_naive (key_of x)" if "y \<in> set p" for y
    proof -
      from that p(2) have "y = x \<or> y \<in> set placed" by simp
      then show ?thesis using same by blast
    qed
    have "\<forall>y \<in> set p. \<forall>y' \<in> set p. is_naive (key_of y) = is_naive (key_of y')"
      using kx by simp
    moreover have "e1 \<in> set p \<union> set xs"
    proof -
      from Cons.prems(2) have "e1 \<in> set placed \<or> e1 = x \<or> e1 \<in> set xs" by auto
      then show ?thesis unfolding p(2) by blast
    qed
    moreover have "e2 \<in> set p \<union> set xs"
    proof -
      from Cons.prems(3) have "e2 \<in> set placed \<or> e2 = x \<or> e2 \<in> set xs" by auto
      then show ?thesis unfolding p(2) by blast
    qed
    ultimately have "sort_into p xs = Inl TypeError"
      using Cons.prems(4) by (rule Cons.IH)
    with p(1) show ?thesis by simp
  qed
qed

lemma sort_events_mixed:
  assumes "e1 \<in> set events" "e2 \<in> set events" "is_naive (key_of e1) \<noteq> is_naive (key_of e2)"
  shows "sort_events events = Inl TypeError"
  unfolding sort_events_def using assms by (intro sort_into_mixed) simp_all

lemma sort_events_same:
  assumes "\<forall>y \<in> set events. tzinfo_of (key_of y) = z"
  shows "\<exists>r. sort_events events = Inr r \<and> set r = set events \<and>
           sorted_wrt (\<lambda>a b. wall_clock (key_of a) \<le> wall_clock (key_of b)) r"
  unfolding sort_events_def using sort_into_same [of "[]" events z] assms by simp

lemma report_mixed_raises:
  assumes "e1 \<in> set (collect_events components)" "e2 \<in> set (collect_events components)"
    and "is_naive (key_of e1) \<noteq> is_naive (key_of e2)"
  shows "parse_ics_to_human_readable ics_file_path components = Inl TypeError"
  using sort_events_mixed [OF assms] by (simp add: parse_ics_to_human_readable_def)

text \<open>
  Keys that share their \<^verbatim>\<open>tzinfo\<close> object (none at all when every key is naive) are
  compared by wall clock, and the report lists the events in that order.
\<close>

lemma report_sorted_same_zone:
  assumes "\<forall>y \<in> set (collect_events components). tzinfo_of (key_of y) = z"
  shows "\<exists>evs. parse_ics_to_human_readable ics_file_path components =
             Inr ([Header ics_file_path, Blank] @ concat (map render_event evs) @ [Footer]) \<and>
           set evs = set (collect_events components) \<and>
           sorted_wrt (\<lambda>a b. wall_clock (key_of a) \<le> wall_clock (key_of b)) evs"
proof -
  from sort_events_same [OF assms] obtain r where "sort_events (collect_events components) = Inr r"
    and "set r = set (collect_events components)"
    and "sorted_wrt (\<lambda>a b. wall_clock (key_of a) \<le> wall_clock (key_of b)) r"
    by blast
  then show ?thesis by (intro exI [of _ r]) (simp add: parse_ics_to_human_readable_def)
qed

lemma titles_simps [simp]:
  "titles [] = []"
  "titles (Title t # r) = t # titles r"
  "titles (Header p # r) = titles r"
  "titles (Blank # r) = titles r"
  "titles (Start v # r) = titles r"
  "titles (End v # r) = titles r"
  "titles (Location t # r) = titles r"
  "titles (Description t # r) = titles r"
  "titles (Rule # r) = titles r"
  "titles (Footer # r) = titles r"
  by (simp_all add: titles_def)

lemma titles_append [simp]: "titles (a @ b) = titles a @ titles b"
  by (simp add: titles_def)

lemma titles_event [simp]: "titles (render_event e) = [summary e]"
  by (cases "start_prop e"; cases "end_prop e") (simp_all add: render_event_def)

lemma titles_render: "titles (concat (map render_event evs)) = map summary evs"
  by (induction evs) simp_all

lemma titles_report:
  "titles ([Header p, Blank] @ concat (map render_event evs) @ [Footer]) = map summary evs"
  by (simp add: titles_render)

section \<open>The claims\<close>

text \<open>
  In the statements below \<open>read_text s p = Some content\<close> says that \<open>content\<close> is the text of
  the file \<open>p\<close> as the script reads it in the state \<open>s\<close>, every line terminator turned into a
  line feed; \<open>readlines content\<close> are its lines.  \<open>fs s p\<close> is the text as it is stored.
\<close>

text \<open>
  C1 (lossless split), as the code has it.  In an invocation (the counter starts at 0)
  with a positive \<open>max_lines\<close>, take any input file that is processed to the end, after the
  earlier inputs were.  The lines behind the preamble prefix of its output files,
  concatenated in the order in which the files were opened, are exactly the lines of the
  input file as a text-mode read delivers them: in order, every line terminator (carriage
  return and line feed, carriage return alone, line feed) turned into one line feed, and
  otherwise unchanged; so their text is the translated input text.  For an input file
  without a carriage return that is the stored text itself, line terminators included.
  The order is the ascending chunk order: the files are the chunks with consecutive
  indices.
\<close>

theorem lossless_split:
  assumes "0 < max_lines"
    and "count s0 = 0"
    and "process_files preamble max_lines earlier s0 = Inr s"
    and "fs s input_filename = Some raw"
    and "process_file preamble max_lines input_filename s = Inr s'"
  shows "concat (map (content_lines preamble s') (outputs s s')) =
           readlines (universal_newlines raw) \<and>
         concat (concat (map (content_lines preamble s') (outputs s s'))) =
           universal_newlines raw \<and>
         (CHR 0x0D \<notin> set raw \<longrightarrow>
            concat (map (content_lines preamble s') (outputs s s')) = readlines raw \<and>
            concat (concat (map (content_lines preamble s') (outputs s s'))) = raw) \<and>
         outputs s s' =
           map (chunk_name input_filename)
             [count s div max_lines ..
              (count s + int (length (readlines (universal_newlines raw)))) div max_lines]"
proof -
  let ?content = "universal_newlines raw"
  have c: "0 \<le> count s"
    using process_files_count [OF assms(1) _ assms(3)] assms(2) by simp
  have t: "read_text s input_filename = Some ?content"
    using assms(4) by (simp add: read_text_def)
  have 1: "concat (map (content_lines preamble s') (outputs s s')) = readlines ?content"
    unfolding process_file_chunks [OF assms(1) c assms(5) t] by (rule concat_chunks)
  from 1 have 2: "concat (concat (map (content_lines preamble s') (outputs s s'))) = ?content"
    by (simp add: concat_readlines)
  have 3: "concat (map (content_lines preamble s') (outputs s s')) = readlines raw \<and>
         concat (concat (map (content_lines preamble s') (outputs s s'))) = raw"
    if "CHR 0x0D \<notin> set raw"
    using 1 2 by (simp add: universal_newlines_id [OF that])
  have 4: "outputs s s' =
         map (chunk_name input_filename)
           [count s div max_lines .. (count s + int (length (readlines ?content))) div max_lines]"
    by (rule process_file_outputs [OF assms(1) c assms(5) t])
  have imp: "CHR 0x0D \<notin> set raw \<longrightarrow>
            concat (map (content_lines preamble s') (outputs s s')) = readlines raw \<and>
            concat (concat (map (content_lines preamble s') (outputs s s'))) = raw"
    by (rule impI) (rule 3)
  show ?thesis by (rule conjI 1 2 imp 4)+
qed

theorem lossless_split_witness:
  "(0::int) < 2 \<and> count example_state = 0 \<and>
   process_files [''H\<newline>''] 2 [] example_state = Inr example_state \<and>
   fs example_state ''d/a.txt'' = Some ''x\<newline>y\<newline>z'' \<and>
   CHR 0x0D \<notin> set ''x\<newline>y\<newline>z'' \<and>
   (\<exists>s'. process_file [''H\<newline>''] 2 ''d/a.txt'' example_state = Inr s' \<and>
      concat (map (content_lines [''H\<newline>''] s') (outputs example_state s')) =
        [''x\<newline>'', ''y\<newline>'', ''z''] \<and>
      concat (concat (map (content_lines [''H\<newline>''] s') (outputs example_state s'))) =
        ''x\<newline>y\<newline>z'' \<and>
      outputs example_state s' = [''d/a-0.txt'', ''d/a-1.txt''])"
proof -
  have h1: "(0::int) < 2" by simp
  have h2: "count example_state = 0" by (simp add: example_state_def)
  have h3: "process_files [''H\<newline>''] 2 [] example_state = Inr example_state" by simp
  have h4: "fs example_state ''d/a.txt'' = Some ''x\<newline>y\<newline>z''"
    by (simp add: example_state_def)
  have h6: "CHR 0x0D \<notin> set ''x\<newline>y\<newline>z''" by simp
  have "\<exists>s'. process_file [''H\<newline>''] 2 ''d/a.txt'' example_state = Inr s'"
    by (simp add: example_state_def eval_defs)
  then obtain s' where h5: "process_file [''H\<newline>''] 2 ''d/a.txt'' example_state = Inr s'" ..
  have r: "readlines ''x\<newline>y\<newline>z'' = [''x\<newline>'', ''y\<newline>'', ''z'']"
    by (simp add: readlines_def)
  have v: "universal_newlines ''x\<newline>y\<newline>z'' = ''x\<newline>y\<newline>z''" by simp
  have n: "chunk_name ''d/a.txt'' 0 = ''d/a-0.txt''" "chunk_name ''d/a.txt'' 1 = ''d/a-1.txt''"
    by (simp_all add: chunk_name_def splitext_def rfind_def str_def str_nat.simps digit_char_def)
  have u: "[0 .. (1::int)] = [0, 1]" by (simp add: upto_rec1)
  note res = lossless_split [OF h1 h2 h3 h4 h5]
  from res [THEN conjunct2, THEN conjunct2, THEN conjunct1] h6
  have ab: "concat (map (content_lines [''H\<newline>''] s') (outputs example_state s')) =
          readlines ''x\<newline>y\<newline>z'' \<and>
        concat (concat (map (content_lines [''H\<newline>''] s') (outputs example_state s'))) =
          ''x\<newline>y\<newline>z''"
    by (rule mp)
  from ab [THEN conjunct1]
  have a: "concat (map (content_lines [''H\<newline>''] s') (outputs example_state s')) =
        [''x\<newline>'', ''y\<newline>'', ''z'']"
    by (simp only: r)
  note b = ab [THEN conjunct2]
  from res [THEN conjunct2, THEN conjunct2, THEN conjunct2]
  have d: "outputs example_state s' = [''d/a-0.txt'', ''d/a-1.txt'']"
    by (simp add: h2 r v n u)
  show ?thesis
    by (rule conjI h1 h2 h3 h4 h6 exI [of _ s'] h5 a b d)+
qed

text \<open>
  The claim as the specification words it asks for the lines of the input file verbatim,
  trailing line terminators included.  The input of \<^verbatim>\<open>SplitFile.py w.txt\<close> holds two lines
  that end in a carriage return and a line feed; the one output file holds the two lines
  ending in a line feed only, so neither the lines nor the text are those of the input.
\<close>

theorem lossless_split_counterexample:
  "fs crlf_state ''w.txt'' =
     Some [CHR ''x'', CHR 0x0D, CHR 0x0A, CHR ''y'', CHR 0x0D, CHR 0x0A] \<and>
   outputs crlf_state (main crlf_args crlf_state) = [''w-0.txt''] \<and>
   fs (main crlf_args crlf_state) ''w-0.txt'' = Some ''x\<newline>y\<newline>'' \<and>
   content_lines [] (main crlf_args crlf_state) ''w-0.txt'' = [''x\<newline>'', ''y\<newline>''] \<and>
   concat (concat (map (content_lines [] (main crlf_args crlf_state))
                    (outputs crlf_state (main crlf_args crlf_state)))) \<noteq>
     [CHR ''x'', CHR 0x0D, CHR 0x0A, CHR ''y'', CHR 0x0D, CHR 0x0A]"
  by (simp add: crlf_state_def crlf_args_def eval_defs)

text \<open>
  C2 (chunk sizes), as the code has it.  For every input file of an invocation with a
  positive \<open>max_lines\<close>: at least one output file is opened; no output file holds more than
  \<open>max_lines\<close> content lines; every output file but the first and the last holds exactly
  \<open>max_lines\<close>; the last one holds fewer than \<open>max_lines\<close>, possibly none; and when there
  is more than one, the first holds \<open>max_lines\<close> less the counter's remainder at the moment
  the input is opened.  For the first input file of the invocation the counter is 0
  there: every output file but the last holds exactly \<open>max_lines\<close> content lines and the
  last holds the remainder \<open>n mod max_lines\<close>.
\<close>

theorem chunk_size_invariant:
  assumes "0 < max_lines"
    and "count s0 = 0"
    and "process_files preamble max_lines earlier s0 = Inr s"
    and "read_text s input_filename = Some content"
    and "process_file preamble max_lines input_filename s = Inr s'"
  shows "chunk_sizes preamble s s' \<noteq> [] \<and>
         last (chunk_sizes preamble s s') < max_lines \<and>
         (\<forall>n \<in> set (chunk_sizes preamble s s'). 0 \<le> n \<and> n \<le> max_lines) \<and>
         (\<forall>j. 0 < j \<and> Suc j < length (chunk_sizes preamble s s') \<longrightarrow>
              chunk_sizes preamble s s' ! j = max_lines) \<and>
         (1 < length (chunk_sizes preamble s s') \<longrightarrow>
              hd (chunk_sizes preamble s s') = max_lines - count s mod max_lines) \<and>
         (earlier = [] \<longrightarrow>
            (\<forall>j. Suc j < length (chunk_sizes preamble s s') \<longrightarrow>
                 chunk_sizes preamble s s' ! j = max_lines) \<and>
            last (chunk_sizes preamble s s') = int (length (readlines content)) mod max_lines)"
proof -
  let ?chs = "chunks max_lines (count s) (readlines content)"
  have c: "0 \<le> count s"
    using process_files_count [OF assms(1) _ assms(3)] assms(2) by simp
  have sz: "chunk_sizes preamble s s' = map (\<lambda>ch. int (length ch)) ?chs"
    by (rule chunk_sizes_chunks [OF assms(1) c assms(5,4)])
  have ne: "?chs \<noteq> []" by (rule chunks_nonempty)
  note aux = chunks_sizes_aux [OF assms(1), of "count s" "readlines content"]
  have 1: "chunk_sizes preamble s s' \<noteq> []" using ne by (simp add: sz)
  have 2: "last (chunk_sizes preamble s s') < max_lines"
    using aux ne by (simp add: sz last_map)
  have 3: "\<forall>n \<in> set (chunk_sizes preamble s s'). 0 \<le> n \<and> n \<le> max_lines"
    using chunks_bound [OF assms(1), of _ "count s" "readlines content"] by (auto simp: sz)
  have 4: "\<forall>j. 0 < j \<and> Suc j < length (chunk_sizes preamble s s') \<longrightarrow>
              chunk_sizes preamble s s' ! j = max_lines"
    using aux by (simp add: sz)
  have 5: "1 < length (chunk_sizes preamble s s') \<longrightarrow>
              hd (chunk_sizes preamble s s') = max_lines - count s mod max_lines"
    using aux ne by (simp add: sz hd_map)
  have 6: "chunk_sizes preamble s s' ! j = max_lines"
    if "earlier = []" "Suc j < length (chunk_sizes preamble s s')" for j
  proof (cases j)
    case 0
    from that(1) assms(2,3) have "count s = 0" by simp
    moreover have "1 < length (chunk_sizes preamble s s')" using that(2) by simp
    ultimately have "hd (chunk_sizes preamble s s') = max_lines" using 5 by simp
    with 0 1 show ?thesis by (simp add: hd_conv_nth)
  next
    case (Suc k)
    with that(2) 4 show ?thesis by simp
  qed
  have 7: "last (chunk_sizes preamble s s') = int (length (readlines content)) mod max_lines"
    if "earlier = []"
  proof -
    from that assms(2,3) have "count s = 0" by simp
    then show ?thesis
      using length_last_chunk [OF assms(1), of "count s" "readlines content"] ne
      by (simp add: sz last_map)
  qed
  from 1 2 3 4 5 6 7 show ?thesis by blast
qed

theorem chunk_size_invariant_witness:
  "(0::int) < 2 \<and> count example_state = 0 \<and>
   process_files [''H\<newline>''] 2 [] example_state = Inr example_state \<and>
   read_text example_state ''d/a.txt'' = Some ''x\<newline>y\<newline>z'' \<and>
   (\<exists>s'. process_file [''H\<newline>''] 2 ''d/a.txt'' example_state = Inr s' \<and>
      chunk_sizes [''H\<newline>''] example_state s' \<noteq> [] \<and>
      last (chunk_sizes [''H\<newline>''] example_state s') < 2)"
proof -
  have h1: "(0::int) < 2" by simp
  have h2: "count example_state = 0" by (simp add: example_state_def)
  have h3: "process_files [''H\<newline>''] 2 [] example_state = Inr example_state" by simp
  have h4: "read_text example_state ''d/a.txt'' = Some ''x\<newline>y\<newline>z''"
    by (simp add: example_state_def read_text_def)
  have "\<exists>s'. process_file [''H\<newline>''] 2 ''d/a.txt'' example_state = Inr s'"
    by (simp add: example_state_def eval_defs)
  then obtain s' where h5: "process_file [''H\<newline>''] 2 ''d/a.txt'' example_state = Inr s'" ..
  note res = chunk_size_invariant [OF h1 h2 h3 h4 h5]
  from res [THEN conjunct1] res [THEN conjunct2, THEN conjunct1] h1 h2 h3 h4 h5
  show ?thesis by blast
qed

text \<open>
  The claim as the specification words it asks for 1 to \<open>max_lines\<close> content lines in the
  final file, and for exactly \<open>max_lines\<close> in every other file of every input.  A sole
  input of exactly \<open>max_lines = 2\<close> lines gives two output files, the final one without any
  content line.  With a second input file of two lines the counter is carried over (it
  stands at 3): the first chunk of the second file holds one line although it is not the
  final one.
\<close>

theorem chunk_size_counterexample:
  "chunk_sizes [] two_line_state (main two_line_args two_line_state) = [2, 0] \<and>
   chunk_sizes [] two_line_state (main two_file_args two_line_state) = [2, 0, 1, 1]"
  by (simp add: two_line_state_def two_line_args_def two_file_args_def eval_defs)

text \<open>
  C3 (exact multiple).  A sole input file of exactly \<open>k * max_lines\<close> lines (any \<open>k\<close>, so
  also \<open>k \<ge> 1\<close>), a positive \<open>max_lines\<close> and no write-protected path: the run opens
  \<open>k + 1\<close> output files, the chunks 0 to \<open>k\<close>.  The first \<open>k\<close> hold exactly \<open>max_lines\<close>
  content lines behind the preamble, and the trailing file, opened eagerly at the boundary,
  holds the preamble and no content line.
\<close>

theorem exact_multiple_boundary:
  assumes "files_arg a = [input_filename]"
    and "0 < max_lines_of (size_arg a)"
    and "read_text s input_filename = Some content"
    and "int (length (readlines content)) = int k * max_lines_of (size_arg a)"
    and "\<forall>p. \<not> locked s p"
  shows "outputs s (main a s) = map (chunk_name input_filename) [0 .. int k] \<and>
         length (outputs s (main a s)) = k + 1 \<and>
         chunk_sizes (loaded_preamble a s) s (main a s) =
           replicate k (max_lines_of (size_arg a)) @ [0] \<and>
         (\<forall>p \<in> set (outputs s (main a s)).
            \<exists>body. fs (main a s) p = Some (concat (loaded_preamble a s) @ body)) \<and>
         fs (main a s) (chunk_name input_filename (int k)) = Some (concat (loaded_preamble a s))"
proof -
  let ?m = "max_lines_of (size_arg a)" and ?P = "loaded_preamble a s" and ?s0 = "start_state a s"
  let ?chs = "chunks ?m 0 (readlines content)"
  have c0: "0 \<le> count ?s0" and content: "read_text ?s0 input_filename = Some content"
    and unlocked: "\<forall>p. \<not> locked ?s0 p"
    using assms(3,5) by simp_all
  from process_file_succeeds [OF assms(2) c0 content unlocked]
  obtain s' where run: "process_file ?P ?m input_filename ?s0 = Inr s'" ..
  have main: "main a s = s'" by (rule main_sole [OF assms(1) run])
  note sole = main_sole_outputs [OF assms(1,2) run]
  have div: "(int k * ?m) div ?m = int k" using assms(2) by simp
  have len: "length ?chs = k + 1"
    using length_chunks [OF assms(2), of 0 "readlines content"] assms(4) div by simp
  have outs: "outputs s (main a s) = map (chunk_name input_filename) [0 .. int k]"
    using process_file_outputs [OF assms(2) c0 run content] assms(4) div
    by (simp add: sole(1))
  have n: "length (outputs s (main a s)) = k + 1"
    using length_outputs [OF assms(2) c0 run content] len by (simp add: sole(1))
  have sz: "chunk_sizes ?P s (main a s) = map (\<lambda>ch. int (length ch)) ?chs"
    using chunk_sizes_chunks [OF assms(2) c0 run content] by (simp add: sole(2))
  note aux = chunks_sizes_aux [OF assms(2), of 0 "readlines content"]
  have ne: "?chs \<noteq> []" by (rule chunks_nonempty)
  have "int (length (last ?chs)) = 0"
    unfolding length_last_chunk [OF assms(2), of 0 "readlines content"] assms(4) by simp
  then have lastlen: "length (last ?chs) = 0" by simp
  have sizes: "map (\<lambda>ch. int (length ch)) ?chs = replicate k ?m @ [0]"
  proof (rule nth_equalityI)
    show "length (map (\<lambda>ch. int (length ch)) ?chs) = length (replicate k ?m @ [0])"
      by (simp add: len)
    fix j
    assume "j < length (map (\<lambda>ch. int (length ch)) ?chs)"
    then have j: "j < k + 1" by (simp add: len)
    show "map (\<lambda>ch. int (length ch)) ?chs ! j = (replicate k ?m @ [0]) ! j"
    proof (cases "j < k")
      case True
      then have sj: "Suc j < length ?chs" by (simp add: len)
      have "int (length (?chs ! j)) = ?m"
      proof (cases j)
        case 0
        from sj have "1 < length ?chs" by simp
        with aux have "int (length (hd ?chs)) = ?m" by simp
        with 0 ne show ?thesis by (simp add: hd_conv_nth)
      next
        case (Suc i)
        with sj aux show ?thesis by simp
      qed
      with True sj show ?thesis by (simp add: nth_append)
    next
      case False
      with j have jk: "j = k" by simp
      then have "?chs ! j = last ?chs" using len ne by (simp add: last_conv_nth)
      with lastlen jk len show ?thesis by (simp add: nth_append)
    qed
  qed
  have pre: "\<exists>body. fs (main a s) p = Some (concat ?P @ body)" if "p \<in> set (outputs s (main a s))" for p
  proof -
    from that obtain j where j: "j < length (outputs ?s0 s')" and p: "p = outputs ?s0 s' ! j"
      by (auto simp: sole(1) in_set_conv_nth)
    from j have j': "j < length (chunks ?m (count ?s0) (readlines content))"
      using length_outputs [OF assms(2) c0 run content] by simp
    from process_file_nth_output [OF assms(2) c0 run content j'] p
    show ?thesis by (auto simp: main)
  qed
  have k: "k < length (chunks ?m (count ?s0) (readlines content))" using len by simp
  have "?chs ! k = last ?chs" using len ne by (simp add: last_conv_nth)
  with lastlen have "?chs ! k = []" by simp
  with process_file_nth_output(2) [OF assms(2) c0 run content k]
  have final: "fs (main a s) (chunk_name input_filename (int k)) = Some (concat ?P)"
    by (simp add: main)
  from outs n sz sizes pre final show ?thesis by simp
qed

theorem exact_multiple_boundary_witness:
  "files_arg two_line_args = [''b.txt''] \<and>
   0 < max_lines_of (size_arg two_line_args) \<and>
   read_text two_line_state ''b.txt'' = Some ''x\<newline>y\<newline>'' \<and>
   int (length (readlines ''x\<newline>y\<newline>'')) = int 1 * max_lines_of (size_arg two_line_args) \<and>
   (\<forall>p. \<not> locked two_line_state p) \<and>
   outputs two_line_state (main two_line_args two_line_state) = [''b-0.txt'', ''b-1.txt''] \<and>
   chunk_sizes (loaded_preamble two_line_args two_line_state) two_line_state
     (main two_line_args two_line_state) = [2, 0] \<and>
   fs (main two_line_args two_line_state) ''b-1.txt'' = Some []"
proof -
  have h1: "files_arg two_line_args = [''b.txt'']" by (simp add: two_line_args_def)
  have m: "max_lines_of (size_arg two_line_args) = 2"
    by (simp add: two_line_args_def max_lines_of_def)
  have h2: "0 < max_lines_of (size_arg two_line_args)" by (simp add: m)
  have h3: "read_text two_line_state ''b.txt'' = Some ''x\<newline>y\<newline>''"
    by (simp add: two_line_state_def read_text_def)
  have h4: "int (length (readlines ''x\<newline>y\<newline>'')) =
      int 1 * max_lines_of (size_arg two_line_args)"
    by (simp add: m readlines_def)
  have h5: "\<forall>p. \<not> locked two_line_state p" by (simp add: two_line_state_def)
  have P: "loaded_preamble two_line_args two_line_state = []"
    by (simp add: loaded_preamble_def read_preamble_def two_line_args_def)
  have n: "chunk_name ''b.txt'' 0 = ''b-0.txt''" "chunk_name ''b.txt'' 1 = ''b-1.txt''"
    by (simp_all add: chunk_name_def splitext_def rfind_def str_def str_nat.simps digit_char_def)
  have u: "[0 .. (1::int)] = [0, 1]" by (simp add: upto_rec1)
  note res = exact_multiple_boundary [OF h1 h2 h3 h4 h5]
  from res [THEN conjunct1]
  have a: "outputs two_line_state (main two_line_args two_line_state) = [''b-0.txt'', ''b-1.txt'']"
    by (simp add: u n)
  from res [THEN conjunct2, THEN conjunct2, THEN conjunct1]
  have b: "chunk_sizes (loaded_preamble two_line_args two_line_state) two_line_state
     (main two_line_args two_line_state) = [2, 0]"
    by (simp add: m)
  from res [THEN conjunct2, THEN conjunct2, THEN conjunct2, THEN conjunct2]
  have c: "fs (main two_line_args two_line_state) ''b-1.txt'' = Some []"
    by (simp add: P n)
  from h1 h2 h3 h4 h5 a b c show ?thesis by blast
qed

text \<open>
  C4 (output naming), as the code has it.  For every input file of an invocation with a
  positive \<open>max_lines\<close>, the output files are named \<^verbatim>\<open><stem>-<index><extension>\<close>, where
  stem and extension are the two parts of the input path (so the files lie in the input
  file's directory), with consecutive indices that start at the counter divided by
  \<open>max_lines\<close> as it stands when the input file is opened.  For the first input file of the
  invocation that is index 0.  Every file after the first is opened by a rotation, at a
  counter value that is a multiple of \<open>max_lines\<close>, and its index is that value divided by
  \<open>max_lines\<close>.
\<close>

theorem output_naming:
  assumes "0 < max_lines"
    and "count s0 = 0"
    and "process_files preamble max_lines earlier s0 = Inr s"
    and "read_text s input_filename = Some content"
    and "process_file preamble max_lines input_filename s = Inr s'"
  shows "outputs s s' =
           map (chunk_name input_filename)
             [count s div max_lines .. (count s + int (length (readlines content))) div max_lines] \<and>
         (earlier = [] \<longrightarrow> hd (outputs s s') = chunk_name input_filename 0) \<and>
         map snd (rotations (new_events s s')) = tl (outputs s s') \<and>
         (\<forall>(c, p) \<in> set (rotations (new_events s s')).
            c mod max_lines = 0 \<and> p = chunk_name input_filename (c div max_lines)) \<and>
         (\<forall>i. dir_of (chunk_name input_filename i) = dir_of input_filename) \<and>
         fst (splitext input_filename) @ snd (splitext input_filename) = input_filename"
proof -
  let ?q = "count s div max_lines"
  let ?q' = "(count s + int (length (readlines content))) div max_lines"
  have c: "0 \<le> count s"
    using process_files_count [OF assms(1) _ assms(3)] assms(2) by simp
  have le: "?q \<le> ?q'" using assms(1) by (intro zdiv_mono1) simp_all
  then have up: "[?q .. ?q'] = ?q # [?q + 1 .. ?q']" by (rule upto_rec1)
  have 1: "outputs s s' = map (chunk_name input_filename) [?q .. ?q']"
    by (rule process_file_outputs [OF assms(1) c assms(5,4)])
  have 2: "hd (outputs s s') = chunk_name input_filename 0" if "earlier = []"
  proof -
    from that assms(2,3) have "count s = 0" by simp
    then show ?thesis unfolding 1 up by simp
  qed
  have rot: "rotations (new_events s s') =
      map (\<lambda>i. (i * max_lines, chunk_name input_filename i)) [?q + 1 .. ?q']"
    by (rule process_file_rotations [OF assms(1) c assms(5,4)])
  have 3: "map snd (rotations (new_events s s')) = tl (outputs s s')"
    unfolding rot 1 up by (simp add: comp_def)
  have 4: "\<forall>(c, p) \<in> set (rotations (new_events s s')).
            c mod max_lines = 0 \<and> p = chunk_name input_filename (c div max_lines)"
    unfolding rot using assms(1) by auto
  have 5: "\<forall>i. dir_of (chunk_name input_filename i) = dir_of input_filename"
    by (simp add: dir_of_chunk_name)
  from 1 2 3 4 5 splitext_append [of input_filename] show ?thesis by blast
qed

theorem output_naming_witness:
  "(0::int) < 2 \<and> count example_state = 0 \<and>
   process_files [''H\<newline>''] 2 [] example_state = Inr example_state \<and>
   read_text example_state ''d/a.txt'' = Some ''x\<newline>y\<newline>z'' \<and>
   (\<exists>s'. process_file [''H\<newline>''] 2 ''d/a.txt'' example_state = Inr s' \<and>
      outputs example_state s' = [''d/a-0.txt'', ''d/a-1.txt''] \<and>
      map snd (rotations (new_events example_state s')) = [''d/a-1.txt'']) \<and>
   dir_of ''d/a-1.txt'' = ''d/''"
proof -
  have h1: "(0::int) < 2" by simp
  have h2: "count example_state = 0" by (simp add: example_state_def)
  have h3: "process_files [''H\<newline>''] 2 [] example_state = Inr example_state" by simp
  have h4: "read_text example_state ''d/a.txt'' = Some ''x\<newline>y\<newline>z''"
    by (simp add: example_state_def read_text_def)
  have "\<exists>s'. process_file [''H\<newline>''] 2 ''d/a.txt'' example_state = Inr s'"
    by (simp add: example_state_def eval_defs)
  then obtain s' where h5: "process_file [''H\<newline>''] 2 ''d/a.txt'' example_state = Inr s'" ..
  have r: "readlines ''x\<newline>y\<newline>z'' = [''x\<newline>'', ''y\<newline>'', ''z'']"
    by (simp add: readlines_def)
  have n: "chunk_name ''d/a.txt'' 0 = ''d/a-0.txt''" "chunk_name ''d/a.txt'' 1 = ''d/a-1.txt''"
    by (simp_all add: chunk_name_def splitext_def rfind_def str_def str_nat.simps digit_char_def)
  have u: "[0 .. (1::int)] = [0, 1]" by (simp add: upto_rec1)
  note res = output_naming [OF h1 h2 h3 h4 h5]
  from res [THEN conjunct1]
  have a: "outputs example_state s' = [''d/a-0.txt'', ''d/a-1.txt'']"
    by (simp add: h2 r n u)
  from res [THEN conjunct2, THEN conjunct2, THEN conjunct1]
  have b: "map snd (rotations (new_events example_state s')) = [''d/a-1.txt'']"
    by (simp only: a list.sel)
  from res [THEN conjunct2, THEN conjunct2, THEN conjunct2, THEN conjunct2, THEN conjunct1]
  have "dir_of (chunk_name ''d/a.txt'' 1) = dir_of ''d/a.txt''" by (rule spec)
  moreover have "dir_of ''d/a.txt'' = ''d/''" by (simp add: dir_of_def rfind_def)
  ultimately have d: "dir_of ''d/a-1.txt'' = ''d/''" by (simp only: n)
  have ex: "\<exists>s'. process_file [''H\<newline>''] 2 ''d/a.txt'' example_state = Inr s' \<and>
      outputs example_state s' = [''d/a-0.txt'', ''d/a-1.txt''] \<and>
      map snd (rotations (new_events example_state s')) = [''d/a-1.txt'']"
    by (rule exI [of _ s']) (rule conjI h5 a b)+
  show ?thesis by (rule conjI h1 h2 h3 h4 ex d)+
qed

text \<open>
  The claim as the specification words it names the first output file of every input file
  \<^verbatim>\<open><base>-0<ext>\<close>.  In the invocation \<^verbatim>\<open>SplitFile.py -s 2 b.txt c.txt\<close> the first
  output file of \<^verbatim>\<open>c.txt\<close> is \<^verbatim>\<open>c-1.txt\<close>, and \<^verbatim>\<open>c-0.txt\<close> is never opened.
\<close>

theorem output_naming_counterexample:
  "outputs two_line_state (main two_file_args two_line_state) =
     [''b-0.txt'', ''b-1.txt'', ''c-1.txt'', ''c-2.txt''] \<and>
   chunk_name ''c.txt'' 0 = ''c-0.txt''"
  by (simp add: two_line_state_def two_file_args_def eval_defs)

text \<open>
  C5 (counter).  The claim asks for a counter that rises by \<open>n\<close> over an input file of \<open>n\<close>
  lines.  The loop increments it before every \<^verbatim>\<open>readline\<close>, also before the one that
  finds the end of the file: over the two-line file the counter goes from 0 to 3.
\<close>

theorem counter_after_two_lines:
  "count (start_state two_line_args two_line_state) = 0 \<and>
   length (readlines ''x\<newline>y\<newline>'') = 2 \<and>
   count (main two_line_args two_line_state) = 3"
  by (simp add: two_line_state_def two_line_args_def start_state_def eval_defs)

text \<open>
  C6 (preamble placement).  For every input file of an invocation that is processed to the
  end, every output file opened for it, the first included, holds the text of the loaded
  preamble followed by its content lines, which are lines of the input file.  The loaded
  preamble is the header file's lines, so that text is the header file's text, verbatim.
  Without a preamble argument the loaded preamble is empty and every output file holds
  its content lines from the top.
\<close>

theorem preamble_placement:
  assumes "0 < max_lines_of (size_arg a)"
    and "process_files (loaded_preamble a s) (max_lines_of (size_arg a)) earlier (start_state a s)
           = Inr s1"
    and "read_text s1 input_filename = Some content"
    and "process_file (loaded_preamble a s) (max_lines_of (size_arg a)) input_filename s1 = Inr s2"
  shows "outputs s1 s2 \<noteq> [] \<and>
         (\<forall>p \<in> set (outputs s1 s2).
            fs s2 p = Some (concat (loaded_preamble a s) @
                            concat (content_lines (loaded_preamble a s) s2 p)) \<and>
            set (content_lines (loaded_preamble a s) s2 p) \<subseteq> set (readlines content)) \<and>
         (\<forall>header content'. preamble_arg a = Some header \<and> header \<noteq> [] \<and>
              read_text s header = Some content' \<longrightarrow>
            loaded_preamble a s = readlines content' \<and> concat (loaded_preamble a s) = content') \<and>
         (preamble_arg a = None \<longrightarrow>
            loaded_preamble a s = [] \<and>
            (\<forall>p \<in> set (outputs s1 s2). fs s2 p = Some (concat (content_lines [] s2 p))))"
proof -
  let ?P = "loaded_preamble a s" and ?m = "max_lines_of (size_arg a)"
  let ?chs = "chunks ?m (count s1) (readlines content)"
  have c: "0 \<le> count s1"
    using process_files_count [OF assms(1) _ assms(2)] by simp
  note len = length_outputs [OF assms(1) c assms(4,3)]
  have 1: "outputs s1 s2 \<noteq> []" using len chunks_nonempty [of ?m "count s1" "readlines content"] by auto
  have 2: "fs s2 p = Some (concat ?P @ concat (content_lines ?P s2 p)) \<and>
      set (content_lines ?P s2 p) \<subseteq> set (readlines content)"
    if "p \<in> set (outputs s1 s2)" for p
  proof -
    from that obtain j where j: "j < length (outputs s1 s2)" and p: "p = outputs s1 s2 ! j"
      by (auto simp: in_set_conv_nth)
    from j len have j': "j < length ?chs" by simp
    have "content_lines ?P s2 p = map (content_lines ?P s2) (outputs s1 s2) ! j"
      using j p by simp
    then have cl: "content_lines ?P s2 p = ?chs ! j"
      by (simp only: process_file_chunks [OF assms(1) c assms(4,3)])
    have "fs s2 p = Some (concat ?P @ concat (?chs ! j))"
      using process_file_nth_output [OF assms(1) c assms(4,3) j'] p by simp
    moreover have "?chs ! j \<in> set ?chs" using j' by simp
    then have "set (?chs ! j) \<subseteq> set (concat ?chs)" by auto
    ultimately show ?thesis by (simp add: cl concat_chunks)
  qed
  have 3: "loaded_preamble a s = readlines content' \<and> concat (loaded_preamble a s) = content'"
    if "preamble_arg a = Some header" "header \<noteq> []" "read_text s header = Some content'" for header content'
    using that by (simp add: loaded_preamble_def read_preamble_def open_r_def concat_readlines)
  have 4: "?P = []" if "preamble_arg a = None"
    using that by (simp add: loaded_preamble_def read_preamble_def)
  have 5: "\<forall>p \<in> set (outputs s1 s2). fs s2 p = Some (concat (content_lines [] s2 p))"
    if "preamble_arg a = None"
    using 2 4 [OF that] by simp
  from 1 2 3 4 5 show ?thesis by blast
qed

theorem preamble_placement_witness:
  "0 < max_lines_of (size_arg header_args) \<and>
   process_files (loaded_preamble header_args example_state) (max_lines_of (size_arg header_args)) []
     (start_state header_args example_state) = Inr (start_state header_args example_state) \<and>
   read_text (start_state header_args example_state) ''d/a.txt'' = Some ''x\<newline>y\<newline>z'' \<and>
   loaded_preamble header_args example_state = [''H\<newline>''] \<and>
   (\<exists>s2. process_file (loaded_preamble header_args example_state)
            (max_lines_of (size_arg header_args)) ''d/a.txt''
            (start_state header_args example_state) = Inr s2 \<and>
      fs s2 ''d/a-1.txt'' =
        Some (''H\<newline>'' @ concat (content_lines [''H\<newline>''] s2 ''d/a-1.txt'')))"
proof -
  let ?s0 = "start_state header_args example_state"
  let ?P = "loaded_preamble header_args example_state"
  let ?m = "max_lines_of (size_arg header_args)"
  have m: "?m = 2" by (simp add: header_args_def max_lines_of_def)
  have h1: "0 < ?m" by (simp add: m)
  have h2: "process_files ?P ?m [] ?s0 = Inr ?s0" by simp
  have h3: "read_text ?s0 ''d/a.txt'' = Some ''x\<newline>y\<newline>z''"
    by (simp add: example_state_def read_text_def)
  have P: "?P = [''H\<newline>'']"
    by (simp add: loaded_preamble_def read_preamble_def open_r_def read_text_def header_args_def
        example_state_def readlines_def)
  have c0: "0 \<le> count ?s0" and nolock: "\<forall>p. \<not> locked ?s0 p"
    by (simp_all add: example_state_def)
  from process_file_succeeds [OF h1 c0 h3 nolock]
  obtain s2 where h4: "process_file ?P ?m ''d/a.txt'' ?s0 = Inr s2" ..
  have r: "readlines ''x\<newline>y\<newline>z'' = [''x\<newline>'', ''y\<newline>'', ''z'']"
    by (simp add: readlines_def)
  have n: "chunk_name ''d/a.txt'' 0 = ''d/a-0.txt''" "chunk_name ''d/a.txt'' 1 = ''d/a-1.txt''"
    by (simp_all add: chunk_name_def splitext_def rfind_def str_def str_nat.simps digit_char_def)
  have u: "[0 .. (1::int)] = [0, 1]" by (simp add: upto_rec1)
  have "outputs ?s0 s2 = [''d/a-0.txt'', ''d/a-1.txt'']"
    using process_file_outputs [OF h1 c0 h4 h3] by (simp add: m r n u)
  then have mem: "''d/a-1.txt'' \<in> set (outputs ?s0 s2)" by simp
  note res = preamble_placement [OF h1 h2 h3 h4]
  from res [THEN conjunct2, THEN conjunct1, THEN bspec, OF mem, THEN conjunct1]
  have a: "fs s2 ''d/a-1.txt'' =
      Some (''H\<newline>'' @ concat (content_lines [''H\<newline>''] s2 ''d/a-1.txt''))"
    by (simp only: P concat.simps append_Nil2)
  have ex: "\<exists>s2. process_file ?P ?m ''d/a.txt'' ?s0 = Inr s2 \<and>
      fs s2 ''d/a-1.txt'' =
        Some (''H\<newline>'' @ concat (content_lines [''H\<newline>''] s2 ''d/a-1.txt''))"
    by (rule exI [of _ s2]) (rule conjI h4 a)+
  show ?thesis by (rule conjI h1 h2 h3 P ex)+
qed

text \<open>
  C7 (unreadable preamble).  When a preamble path is given and the file cannot be opened,
  the run prints the header error first and then goes on exactly as the run without a
  preamble does: the same further console output, the same output files with the same
  text, the same final counter.
\<close>

theorem preamble_failure_nonfatal:
  assumes "preamble_arg a = Some header" and "header \<noteq> []" and "fs s header = None"
  shows "loaded_preamble a s = [] \<and>
         new_events s (main a s) =
           ErrorReadingHeader # new_events s (main (a\<lparr>preamble_arg := None\<rparr>) s) \<and>
         fs (main a s) = fs (main (a\<lparr>preamble_arg := None\<rparr>) s) \<and>
         outputs s (main a s) = outputs s (main (a\<lparr>preamble_arg := None\<rparr>) s) \<and>
         count (main a s) = count (main (a\<lparr>preamble_arg := None\<rparr>) s)"
proof -
  let ?a' = "a\<lparr>preamble_arg := None\<rparr>"
  let ?m = "max_lines_of (size_arg a)"
  let ?t = "s\<lparr>count := 0, console := []\<rparr>"
  let ?r = "run_files [] ?m (files_arg a) ?t"
  have P: "loaded_preamble a s = []"
    using assms by (simp add: loaded_preamble_def read_preamble_def open_r_def read_text_def)
  have P': "loaded_preamble ?a' s = []"
    by (simp add: loaded_preamble_def read_preamble_def)
  have "start_state a s = (print ErrorReadingHeader s)\<lparr>count := 0\<rparr>"
    using assms by (simp add: start_state_def read_preamble_def open_r_def read_text_def)
  then have st: "start_state a s = shift (console s @ [ErrorReadingHeader]) ?t"
    by (simp add: shift_def print_def)
  have "start_state ?a' s = s\<lparr>count := 0\<rparr>"
    by (simp add: start_state_def read_preamble_def)
  then have st': "start_state ?a' s = shift (console s) ?t"
    by (simp add: shift_def)
  have main: "main a s = shift (console s @ [ErrorReadingHeader]) ?r"
    unfolding main_run_files P st by (rule shift_run_files)
  have main': "main ?a' s = shift (console s) ?r"
    unfolding main_run_files P' st' by (simp add: shift_run_files)
  have 2: "new_events s (main a s) = ErrorReadingHeader # new_events s (main ?a' s)"
    unfolding main main' by (simp add: new_events_def)
  have 3: "fs (main a s) = fs (main ?a' s)" unfolding main main' by simp
  have 4: "outputs s (main a s) = outputs s (main ?a' s)"
    unfolding outputs_new_events 2 by simp
  have 5: "count (main a s) = count (main ?a' s)" unfolding main main' by simp
  from P 2 3 4 5 show ?thesis by (intro conjI)
qed

theorem preamble_failure_nonfatal_witness:
  "preamble_arg missing_header_args = Some ''nope.txt'' \<and> ''nope.txt'' \<noteq> [] \<and>
   fs example_state ''nope.txt'' = None \<and>
   loaded_preamble missing_header_args example_state = [] \<and>
   hd (new_events example_state (main missing_header_args example_state)) = ErrorReadingHeader \<and>
   fs (main missing_header_args example_state) ''d/a-0.txt'' =
     fs (main (missing_header_args\<lparr>preamble_arg := None\<rparr>) example_state) ''d/a-0.txt''"
proof -
  have h1: "preamble_arg missing_header_args = Some ''nope.txt''"
    by (simp add: missing_header_args_def)
  have h2: "''nope.txt'' \<noteq> []" by simp
  have h3: "fs example_state ''nope.txt'' = None" by (simp add: example_state_def)
  note res = preamble_failure_nonfatal [OF h1 h2 h3]
  from res [THEN conjunct2, THEN conjunct2, THEN conjunct1]
  have c: "fs (main missing_header_args example_state) ''d/a-0.txt'' =
     fs (main (missing_header_args\<lparr>preamble_arg := None\<rparr>) example_state) ''d/a-0.txt''"
    by (rule fun_cong)
  from res [THEN conjunct2, THEN conjunct1]
  have d: "hd (new_events example_state (main missing_header_args example_state)) =
      ErrorReadingHeader"
    by simp
  show ?thesis by (rule conjI h1 h2 h3 res [THEN conjunct1] d c)+
qed

text \<open>
  C8 (input failure ends the batch).  When, after the earlier input files were processed,
  an input file raises (it cannot be opened, or an output file cannot be opened while it is
  processed), the run ends there: the only thing added is the error line that names this
  input file.  The later input files play no part in the result.  No file is removed, and
  every file but the output files announced for the failed input is as the earlier inputs
  left it; when the input file itself is missing, the whole file system is.
\<close>

theorem input_failure_fatal:
  assumes "files_arg a = earlier @ input_filename # later"
    and "process_files (loaded_preamble a s) (max_lines_of (size_arg a)) earlier (start_state a s)
           = Inr s1"
    and "process_file (loaded_preamble a s) (max_lines_of (size_arg a)) input_filename s1
           = Inl (ex, s2)"
  shows "main a s = print (ErrorProcessing input_filename ex) s2 \<and>
         main (a\<lparr>files_arg := earlier @ [input_filename]\<rparr>) s = main a s \<and>
         (\<forall>p. p \<notin> set (outputs s1 s2) \<longrightarrow> fs (main a s) p = fs s1 p) \<and>
         (\<forall>p. fs s1 p \<noteq> None \<longrightarrow> fs (main a s) p \<noteq> None) \<and>
         (fs s1 input_filename = None \<longrightarrow>
            ex = FileNotFoundError input_filename \<and> fs (main a s) = fs s1)"
proof -
  let ?P = "loaded_preamble a s" and ?m = "max_lines_of (size_arg a)"
  let ?a' = "a\<lparr>files_arg := earlier @ [input_filename]\<rparr>"
  have 1: "main a s = print (ErrorProcessing input_filename ex) s2"
    unfolding main_run_files run_files_def assms(1) process_files_append
    by (simp add: assms(2,3))
  have P': "loaded_preamble ?a' s = ?P" and st': "start_state ?a' s = start_state a s"
    by (simp_all add: loaded_preamble_def start_state_def)
  have "main ?a' s = print (ErrorProcessing input_filename ex) s2"
    unfolding main_run_files run_files_def P' st'
    using process_files_append [of ?P ?m earlier input_filename "[]" "start_state a s"]
    by (simp add: assms(2,3))
  with 1 have 2: "main ?a' s = main a s" by simp
  have s2: "s2 = outcome (process_file ?P ?m input_filename s1)" by (simp add: assms(3))
  note fr = process_file_outcome [of ?P ?m input_filename s1, folded s2]
  have 3: "\<forall>p. p \<notin> set (outputs s1 s2) \<longrightarrow> fs (main a s) p = fs s1 p"
    using fr unfolding 1 by simp
  have 4: "\<forall>p. fs s1 p \<noteq> None \<longrightarrow> fs (main a s) p \<noteq> None"
    using fr unfolding 1 by simp
  have 5: "ex = FileNotFoundError input_filename \<and> fs (main a s) = fs s1"
    if "fs s1 input_filename = None"
    using process_file_not_found [OF that, of ?P ?m] assms(3) unfolding 1 by simp
  from 1 2 3 4 5 show ?thesis by blast
qed

theorem input_failure_fatal_witness:
  "files_arg missing_first_args = [] @ ''nope.txt'' # [''d/a.txt''] \<and>
   process_files (loaded_preamble missing_first_args example_state)
     (max_lines_of (size_arg missing_first_args)) [] (start_state missing_first_args example_state)
     = Inr (start_state missing_first_args example_state) \<and>
   process_file (loaded_preamble missing_first_args example_state)
     (max_lines_of (size_arg missing_first_args)) ''nope.txt''
     (start_state missing_first_args example_state)
     = Inl (FileNotFoundError ''nope.txt'', start_state missing_first_args example_state) \<and>
   main missing_first_args example_state =
     print (ErrorProcessing ''nope.txt'' (FileNotFoundError ''nope.txt''))
       (start_state missing_first_args example_state) \<and>
   fs (main missing_first_args example_state) ''d/a-0.txt'' = None"
proof -
  let ?s0 = "start_state missing_first_args example_state"
  have h1: "files_arg missing_first_args = [] @ ''nope.txt'' # [''d/a.txt'']"
    by (simp add: missing_first_args_def)
  have h2: "process_files (loaded_preamble missing_first_args example_state)
     (max_lines_of (size_arg missing_first_args)) [] ?s0 = Inr ?s0"
    by simp
  have "fs ?s0 ''nope.txt'' = None" by (simp add: example_state_def)
  then have h3: "process_file (loaded_preamble missing_first_args example_state)
     (max_lines_of (size_arg missing_first_args)) ''nope.txt'' ?s0
     = Inl (FileNotFoundError ''nope.txt'', ?s0)"
    by (rule process_file_not_found)
  note res = input_failure_fatal [OF h1 h2 h3]
  have "fs ?s0 ''d/a-0.txt'' = None" by (simp add: example_state_def)
  then have c: "fs (main missing_first_args example_state) ''d/a-0.txt'' = None"
    by (simp add: res [THEN conjunct1])
  show ?thesis by (rule conjI h1 h2 h3 res [THEN conjunct1] c)+
qed

text \<open>
  The same on three input files, the second of which is missing: the chunks of the first
  stay, the third is never read.  And with an output file that cannot be opened at the
  rotation: the chunk written so far stays, the error names the input file.
\<close>

lemma input_failure_example:
  "console (main missing_input_args example_state) =
     [Generating ''d/a-0.txt'', PrintPreamble [], Echo ''x'', Echo ''y'', Separator 2,
      Generating ''d/a-1.txt'', PrintPreamble [], Echo ''z'',
      ErrorProcessing ''nope.txt'' (FileNotFoundError ''nope.txt'')] \<and>
   fs (main missing_input_args example_state) ''d/a-0.txt'' = Some ''x\<newline>y\<newline>'' \<and>
   fs (main missing_input_args example_state) ''d/a-1.txt'' = Some ''z'' \<and>
   fs (main missing_input_args example_state) ''h-2.txt'' = None"
  by (simp add: example_state_def missing_input_args_def eval_defs)

lemma write_failure_example:
  "console (main two_file_args (two_line_state\<lparr>locked := (\<lambda>p. p = ''b-1.txt'')\<rparr>)) =
     [Generating ''b-0.txt'', PrintPreamble [], Echo ''x'', Echo ''y'', Separator 2,
      Generating ''b-1.txt'', ErrorProcessing ''b.txt'' (PermissionError ''b-1.txt'')] \<and>
   fs (main two_file_args (two_line_state\<lparr>locked := (\<lambda>p. p = ''b-1.txt'')\<rparr>)) ''b-0.txt'' =
     Some ''x\<newline>y\<newline>''"
  by (simp add: two_line_state_def two_file_args_def eval_defs)

text \<open>
  C9 (chronological sort).  The claim expects, for every calendar that parses, a report
  with the events in the order of their start, an all-day event counting as the midnight of
  its date.  That midnight is a naive time.  A calendar that holds an all-day event next to
  an event with a time zone (a UTC time, as in an export of Google Calendar) makes the sort
  compare a naive key with an aware one: it raises, and there is no report.  Calendars
  whose keys are all naive, or all aware with one \<^verbatim>\<open>tzinfo\<close> object, are sorted by
  wall clock (lemma \<open>report_sorted_same_zone\<close>).
\<close>

theorem chronological_sort_raises:
  "parse_ics_to_human_readable ''cal.ics'' [all_day_event, utc_event] = Inl TypeError"
  by (simp add: all_day_event_def utc_event_def ics_defs)

text \<open>The same all-day event next to an event without a time zone is sorted as claimed.\<close>

lemma chronological_sort_naive:
  "parse_ics_to_human_readable ''cal.ics'' [all_day_event, floating_event] =
     Inr [Header ''cal.ics'', Blank,
          Title ''Call'', Start (DateTime (Naive 63839700000000000)), Rule,
          Title ''Holiday'', Start (Date 738886), Rule, Footer]"
  by (simp add: all_day_event_def floating_event_def ics_defs)

text \<open>
  C10 (empty input).  A sole input file without any line, whatever \<open>max_lines\<close> is: the
  only output file opened is chunk 0, \<^verbatim>\<open><base>-0<ext>\<close>; it holds the preamble text and
  no content line, and no other file is touched.
\<close>

theorem empty_input:
  assumes "files_arg a = [input_filename]"
    and "fs s input_filename = Some content"
    and "readlines content = []"
    and "\<not> locked s (chunk_name input_filename 0)"
  shows "outputs s (main a s) = [chunk_name input_filename 0] \<and>
         fs (main a s) (chunk_name input_filename 0) = Some (concat (loaded_preamble a s)) \<and>
         content_lines (loaded_preamble a s) (main a s) (chunk_name input_filename 0) = [] \<and>
         (\<forall>p. p \<noteq> chunk_name input_filename 0 \<longrightarrow> fs (main a s) p = fs s p)"
proof -
  let ?m = "max_lines_of (size_arg a)" and ?P = "loaded_preamble a s" and ?s0 = "start_state a s"
  let ?nm = "chunk_name input_filename 0"
  let ?s1 = "print (Generating ?nm) ?s0"
  let ?s2 = "?s1\<lparr>fs := (fs ?s1)(?nm \<mapsto> [])\<rparr>"
  let ?s4 = "writelines ?nm ?P (print (PrintPreamble ?P) ?s2)"
  let ?s' = "?s4\<lparr>count := count ?s4 + 1\<rparr>"
  have nm: "output_filename (splitext input_filename) 0 ?m = Inr ?nm"
    using max_lines_of_nonzero [of "size_arg a"]
    by (simp add: output_filename_def int_truediv_def chunk_name_def)
  have o: "open_w ?nm ?s1 = Inr ?s2" using assms(4) by (intro open_w_unlocked) simp
  have "content = []" using assms(3) concat_readlines [of content] by simp
  with assms(2) have t: "read_text s input_filename = Some []" by (simp add: read_text_def)
  have run: "process_file ?P ?m input_filename ?s0 = Inr ?s'"
    using nm o by (simp add: process_file_def open_r_def t readlines_def Let_def split_loop_Nil)
  have main: "main a s = ?s'" by (rule main_sole [OF assms(1) run])
  have f: "fs ?s' = (fs s)(?nm \<mapsto> concat ?P)"
    using fs_writelines [of "print (PrintPreamble ?P) ?s2" ?nm "[]" ?P] by simp
  have "console ?s' = console ?s0 @ [Generating ?nm, PrintPreamble ?P]" by simp
  from outputs_start_state(1) [OF this]
  have 1: "outputs s (main a s) = [?nm]" by (simp only: main generated_simps)
  have 2: "fs (main a s) ?nm = Some (concat ?P)" unfolding main f by simp
  have 3: "content_lines ?P (main a s) ?nm = []"
    unfolding content_lines_def 2 by (simp add: readlines_def)
  have 4: "\<forall>p. p \<noteq> ?nm \<longrightarrow> fs (main a s) p = fs s p" unfolding main f by simp
  from 1 2 3 4 show ?thesis by blast
qed

theorem empty_input_witness:
  "files_arg two_line_args = [''b.txt''] \<and>
   fs (two_line_state\<lparr>fs := [''b.txt'' \<mapsto> []]\<rparr>) ''b.txt'' = Some [] \<and>
   readlines [] = [] \<and>
   \<not> locked (two_line_state\<lparr>fs := [''b.txt'' \<mapsto> []]\<rparr>) (chunk_name ''b.txt'' 0) \<and>
   outputs (two_line_state\<lparr>fs := [''b.txt'' \<mapsto> []]\<rparr>)
     (main two_line_args (two_line_state\<lparr>fs := [''b.txt'' \<mapsto> []]\<rparr>)) = [''b-0.txt''] \<and>
   fs (main two_line_args (two_line_state\<lparr>fs := [''b.txt'' \<mapsto> []]\<rparr>)) ''b-0.txt'' = Some []"
proof -
  let ?s = "two_line_state\<lparr>fs := [''b.txt'' \<mapsto> []]\<rparr>"
  have h1: "files_arg two_line_args = [''b.txt'']" by (simp add: two_line_args_def)
  have h2: "fs ?s ''b.txt'' = Some []" by simp
  have h3: "readlines [] = []" by (simp add: readlines_def)
  have h4: "\<not> locked ?s (chunk_name ''b.txt'' 0)" by (simp add: two_line_state_def)
  have P: "loaded_preamble two_line_args ?s = []"
    by (simp add: loaded_preamble_def read_preamble_def two_line_args_def)
  have n: "chunk_name ''b.txt'' 0 = ''b-0.txt''"
    by (simp add: chunk_name_def splitext_def rfind_def str_def str_nat.simps digit_char_def)
  note res = empty_input [OF h1 h2 h3 h4]
  from res [THEN conjunct1] have a: "outputs ?s (main two_line_args ?s) = [''b-0.txt'']"
    by (simp only: n)
  from res [THEN conjunct2, THEN conjunct1]
  have b: "fs (main two_line_args ?s) ''b-0.txt'' = Some []" by (simp add: n P)
  from h1 h2 h3 h4 a b show ?thesis by blast
qed

end
